theory Spec2Isabelle
  imports Main "HOL-Library.Word" "HOL-Library.Signed_Division"
begin

section \<open>The open-addressing hash table of \<^verbatim>\<open>Q3/CWK2Q3.c\<close>\<close>

text \<open>
  The C file keeps three module-level variables: the array \<^verbatim>\<open>hash_map\<close> of string
  pointers, its length \<^verbatim>\<open>current_size\<close> and the counter \<^verbatim>\<open>number_of_items\<close>. An
  array cell is \<^verbatim>\<open>NULL\<close>, the address of the file's own marker \<^verbatim>\<open>tombstone\<close>, or
  the address of a caller's string.

  \<^item> A cell is a \<open>slot\<close>. The marker is recognised by address
    (\<^verbatim>\<open>hash_map[index] == tombstone\<close>), so it is a constructor of its own; a caller's
    string is \<open>Occupied\<close> with its characters, whatever they spell, since the marker
    is \<^verbatim>\<open>static\<close> and no caller holds its address. The marker still points at the
    characters \<^verbatim>\<open>"tombstone"\<close>, and that is what \<^verbatim>\<open>strcmp\<close> reads from it.
  \<^item> The array and its length are one list: \<^verbatim>\<open>resize_map\<close> is the only writer of
    either and sets both from the same \<^verbatim>\<open>new_size\<close>. The uninitialised table is
    the empty list (a null array of length 0).
  \<^item> A key is the characters of a C string before its terminating NUL. The table
    keeps the caller's pointer; the strings are taken not to change while stored.
  \<^item> An operation either returns, or has undefined behaviour (an \<open>error\<close>: a
    division by zero, an access outside the array, a signed overflow of a counter),
    or runs forever (\<open>None\<close>).
  \<^item> \<^verbatim>\<open>calloc\<close> is taken to succeed; its failure ends the process.
\<close>

datatype slot = Empty | Tombstone | Occupied string

datatype error = DivisionByZero | OutOfBounds | SignedOverflow

type_synonym 'a outcome = "(error + 'a) option"

record table =
  hash_map :: "slot list"
  number_of_items :: int

definition current_size :: "table \<Rightarrow> int" where
  "current_size t = int (length (hash_map t))"

definition tombstone :: string where
  "tombstone = ''tombstone''"

definition INT_MAX :: int where
  "INT_MAX = 2147483647"

definition INT_MIN :: int where
  "INT_MIN = - 2147483648"

text \<open>The table before any call: \<^verbatim>\<open>current_size = 0\<close>, \<^verbatim>\<open>number_of_items = 0\<close>.\<close>

definition uninitialised :: table where
  "uninitialised = \<lparr>hash_map = [], number_of_items = 0\<rparr>"

subsection \<open>\<^verbatim>\<open>hash_function\<close>\<close>

text \<open>
  \<^verbatim>\<open>(int) *key\<close> reads a plain \<^verbatim>\<open>char\<close>, which is signed on the x86-64 target: a byte
  from \<open>0x80\<close> on counts as its value minus 256. For the ASCII characters the value is
  the code itself.
\<close>

definition ascii_value :: "char \<Rightarrow> int" where
  "ascii_value c = (if (of_char c :: int) < 128 then of_char c else of_char c - 256)"

text \<open>
  The \<^verbatim>\<open>while\<close> loop adds the value of each character to a 32-bit \<^verbatim>\<open>int\<close>. The
  source accepts overflow of the sum, so the sum is a 32-bit word whose addition wraps,
  read back as a signed value. C's \<^verbatim>\<open>%\<close> truncates towards zero (\<open>smod\<close>), and
  \<^verbatim>\<open>sum % 0\<close> is undefined.
\<close>

fun hash_sum :: "string \<Rightarrow> 32 word \<Rightarrow> 32 word" where
  "hash_sum [] running_sum = running_sum"
| "hash_sum (c # key) running_sum = hash_sum key (running_sum + word_of_int (ascii_value c))"

definition hash_function :: "table \<Rightarrow> string \<Rightarrow> error + int" where
  "hash_function t key =
     (if current_size t = 0 then Inl DivisionByZero
      else Inr (sint (hash_sum key 0) smod current_size t))"

subsection \<open>Cells, \<^verbatim>\<open>strcmp\<close> and \<^verbatim>\<open>next_index\<close>\<close>

text \<open>Reading \<^verbatim>\<open>hash_map[index]\<close> outside the array is undefined behaviour.\<close>

definition read_slot :: "table \<Rightarrow> int \<Rightarrow> error + slot" where
  "read_slot t index =
     (if 0 \<le> index \<and> index < current_size t then Inr (hash_map t ! nat index)
      else Inl OutOfBounds)"

definition write_slot :: "table \<Rightarrow> int \<Rightarrow> slot \<Rightarrow> error + table" where
  "write_slot t index s =
     (if 0 \<le> index \<and> index < current_size t
      then Inr (t\<lparr>hash_map := (hash_map t)[nat index := s]\<rparr>)
      else Inl OutOfBounds)"

text \<open>
  \<^verbatim>\<open>strcmp(hash_map[index], name) == 0\<close> for a non-null cell: the marker is compared
  by its text. The loops never call it on \<^verbatim>\<open>NULL\<close>.
\<close>

fun strcmp_eq :: "slot \<Rightarrow> string \<Rightarrow> bool" where
  "strcmp_eq Empty name = False"
| "strcmp_eq Tombstone name = (tombstone = name)"
| "strcmp_eq (Occupied s) name = (s = name)"

definition next_index :: "table \<Rightarrow> int \<Rightarrow> int" where
  "next_index t current_index =
     (if current_index + 1 \<ge> current_size t then 0 else current_index + 1)"

subsection \<open>\<^verbatim>\<open>index_of\<close> and \<^verbatim>\<open>search_map\<close>\<close>

partial_function (option) index_of_loop :: "table \<Rightarrow> string \<Rightarrow> int \<Rightarrow> int outcome" where
  "index_of_loop t name index =
     (case read_slot t index of
        Inl e \<Rightarrow> Some (Inl e)
      | Inr Empty \<Rightarrow> Some (Inr (- 1))
      | Inr s \<Rightarrow>
          if strcmp_eq s name then Some (Inr index)
          else index_of_loop t name (next_index t index))"

declare index_of_loop.simps [code]

definition index_of :: "table \<Rightarrow> string \<Rightarrow> int outcome" where
  "index_of t name =
     (case hash_function t name of
        Inl e \<Rightarrow> Some (Inl e)
      | Inr index \<Rightarrow> index_of_loop t name index)"

definition search_map :: "table \<Rightarrow> string \<Rightarrow> int outcome" where
  "search_map t name =
     (case index_of t name of
        None \<Rightarrow> None
      | Some (Inl e) \<Rightarrow> Some (Inl e)
      | Some (Inr i) \<Rightarrow> Some (Inr (if i = - 1 then 0 else 1)))"

subsection \<open>\<^verbatim>\<open>add_to_map_without_resizing\<close>\<close>

text \<open>
  The tail of the function: the store into the chosen cell and \<^verbatim>\<open>number_of_items++\<close>.
\<close>

definition store_name :: "table \<Rightarrow> string \<Rightarrow> int \<Rightarrow> error + table" where
  "store_name t name index =
     (case write_slot t index (Occupied name) of
        Inl e \<Rightarrow> Inl e
      | Inr t' \<Rightarrow>
          if number_of_items t' \<ge> INT_MAX then Inl SignedOverflow
          else Inr (t'\<lparr>number_of_items := number_of_items t' + 1\<rparr>))"

text \<open>
  The \<^verbatim>\<open>while (hash_map[index])\<close> loop with its two locals. Leaving the loop at a
  \<^verbatim>\<open>NULL\<close> cell runs the tail; the \<^verbatim>\<open>return\<close> inside the loop leaves the table as it is.
\<close>

partial_function (option) add_loop :: "table \<Rightarrow> string \<Rightarrow> int \<Rightarrow> int \<Rightarrow> table outcome" where
  "add_loop t name index first_tombstone_index =
     (case read_slot t index of
        Inl e \<Rightarrow> Some (Inl e)
      | Inr Empty \<Rightarrow>
          Some (store_name t name
                  (if first_tombstone_index = - 1 then index else first_tombstone_index))
      | Inr s \<Rightarrow>
          if strcmp_eq s name then Some (Inr t)
          else add_loop t name (next_index t index)
                 (if first_tombstone_index = - 1 \<and> s = Tombstone then index
                  else first_tombstone_index))"

declare add_loop.simps [code]

definition add_to_map_without_resizing :: "table \<Rightarrow> string \<Rightarrow> table outcome" where
  "add_to_map_without_resizing t name =
     (case hash_function t name of
        Inl e \<Rightarrow> Some (Inl e)
      | Inr index \<Rightarrow> add_loop t name index (- 1))"

subsection \<open>\<^verbatim>\<open>resize_map\<close>\<close>

text \<open>
  \<^verbatim>\<open>((double) number_of_items) / ((double) new_size) > MAX_LOAD_FACTOR\<close> with
  \<^verbatim>\<open>MAX_LOAD_FACTOR\<close> the double nearest to 0.7. Both operands are 32-bit integers,
  which doubles hold exactly. For a positive divisor \<open>m\<close> the quotient \<open>n / m\<close> is
  either at most \<open>7/10\<close>, and then rounds to at most the double of 0.7, or exceeds
  \<open>7/10\<close> by at least \<open>1 / (10 * m)\<close>, far more than the rounding error, so the
  comparison is \<open>10 * n > 7 * m\<close>. A negative divisor turns the comparison round,
  and division by \<open>0.0\<close> gives an infinity of the sign of \<open>n\<close> (or a NaN, which
  compares false).
\<close>

definition load_factor_exceeded :: "int \<Rightarrow> int \<Rightarrow> bool" where
  "load_factor_exceeded n m =
     (if m > 0 then 10 * n > 7 * m
      else if m < 0 then 10 * n < 7 * m
      else n > 0)"

text \<open>
  The \<^verbatim>\<open>for\<close> loop over the old array: every cell that is neither \<^verbatim>\<open>NULL\<close> nor the
  marker is added to the new table.
\<close>

fun readd :: "slot list \<Rightarrow> table \<Rightarrow> table outcome" where
  "readd [] t = Some (Inr t)"
| "readd (Occupied name # old_map) t =
     (case add_to_map_without_resizing t name of
        Some (Inr t') \<Rightarrow> readd old_map t'
      | r \<Rightarrow> r)"
| "readd (s # old_map) t = readd old_map t"

definition resize_map :: "table \<Rightarrow> int \<Rightarrow> table outcome" where
  "resize_map t new_size =
     (if new_size < 1 \<or> load_factor_exceeded (number_of_items t) new_size then Some (Inr t)
      else readd (hash_map t)
             \<lparr>hash_map = replicate (nat new_size) Empty, number_of_items = 0\<rparr>)"

subsection \<open>\<^verbatim>\<open>add_to_map\<close> and \<^verbatim>\<open>remove_from_map\<close>\<close>

text \<open>
  \<^verbatim>\<open>current_size * 2\<close> is a signed multiplication: beyond \<^verbatim>\<open>INT_MAX\<close> it is
  undefined.
\<close>

definition grow_if_needed :: "table \<Rightarrow> table outcome" where
  "grow_if_needed t =
     (if load_factor_exceeded (number_of_items t) (current_size t)
      then (if current_size t * 2 > INT_MAX then Some (Inl SignedOverflow)
            else resize_map t (current_size t * 2))
      else Some (Inr t))"

definition add_to_map :: "table \<Rightarrow> string \<Rightarrow> table outcome" where
  "add_to_map t name =
     (case (if current_size t = 0 then resize_map t 10 else Some (Inr t)) of
        Some (Inr t1) \<Rightarrow>
          (case add_to_map_without_resizing t1 name of
             Some (Inr t2) \<Rightarrow> grow_if_needed t2
           | r \<Rightarrow> r)
      | r \<Rightarrow> r)"

text \<open>The result pairs the returned \<^verbatim>\<open>int\<close> with the table it leaves.\<close>

definition remove_from_map :: "table \<Rightarrow> string \<Rightarrow> (int \<times> table) outcome" where
  "remove_from_map t name =
     (case index_of t name of
        None \<Rightarrow> None
      | Some (Inl e) \<Rightarrow> Some (Inl e)
      | Some (Inr removed_index) \<Rightarrow>
          if removed_index = - 1 then Some (Inr (0, t))
          else (case write_slot t removed_index Tombstone of
                  Inl e \<Rightarrow> Some (Inl e)
                | Inr t' \<Rightarrow>
                    if number_of_items t' \<le> INT_MIN then Some (Inl SignedOverflow)
                    else Some (Inr (1, t'\<lparr>number_of_items := number_of_items t' - 1\<rparr>))))"

subsection \<open>Sequences of calls\<close>

text \<open>A client of the interface, as \<^verbatim>\<open>main\<close> is: one call after the other.\<close>

datatype operation = Insert string | Delete string | Search string | Resize int

fun step :: "table \<Rightarrow> operation \<Rightarrow> table outcome" where
  "step t (Insert name) = add_to_map t name"
| "step t (Delete name) =
     (case remove_from_map t name of
        None \<Rightarrow> None
      | Some (Inl e) \<Rightarrow> Some (Inl e)
      | Some (Inr (r, t')) \<Rightarrow> Some (Inr t'))"
| "step t (Search name) =
     (case search_map t name of
        None \<Rightarrow> None
      | Some (Inl e) \<Rightarrow> Some (Inl e)
      | Some (Inr r) \<Rightarrow> Some (Inr t))"
| "step t (Resize new_size) = resize_map t new_size"

fun run :: "table \<Rightarrow> operation list \<Rightarrow> table outcome" where
  "run t [] = Some (Inr t)"
| "run t (op # ops) =
     (case step t op of
        Some (Inr t') \<Rightarrow> run t' ops
      | r \<Rightarrow> r)"

subsection \<open>Vocabulary of the proofs\<close>

text \<open>
  The cell at an index, the \<open>k\<close>-th index of the probe sequence that starts at \<open>h\<close>
  (\<^verbatim>\<open>next_index\<close> applied \<open>k\<close> times), and the number of cells that hold a caller's
  string.
\<close>

definition slot_at :: "table \<Rightarrow> int \<Rightarrow> slot" where
  "slot_at t i = hash_map t ! nat i"

definition probe :: "table \<Rightarrow> int \<Rightarrow> nat \<Rightarrow> int" where
  "probe t h k = (h + int k) mod current_size t"

fun is_occupied :: "slot \<Rightarrow> bool" where
  "is_occupied (Occupied s) = True"
| "is_occupied s = False"

definition occupied_count :: "table \<Rightarrow> int" where
  "occupied_count t = int (length (filter is_occupied (hash_map t)))"


text \<open>
  What \<^verbatim>\<open>add_to_map_without_resizing\<close> leaves when it stores the name in cell \<open>p\<close>;
  a stretch of the walk from \<open>h\<close> with neither a \<^verbatim>\<open>NULL\<close> cell nor a cell whose text
  equals the name; the two ways the function returns.
\<close>

definition stored :: "table \<Rightarrow> string \<Rightarrow> int \<Rightarrow> table" where
  "stored t name p =
     t\<lparr>hash_map := (hash_map t)[nat p := Occupied name],
       number_of_items := number_of_items t + 1\<rparr>"

definition clear_before :: "table \<Rightarrow> string \<Rightarrow> int \<Rightarrow> nat \<Rightarrow> bool" where
  "clear_before t name h e \<longleftrightarrow>
     (\<forall>k<e. slot_at t (probe t h k) \<noteq> Empty \<and> \<not> strcmp_eq (slot_at t (probe t h k)) name)"

definition placed_at :: "table \<Rightarrow> string \<Rightarrow> int \<Rightarrow> table \<Rightarrow> bool" where
  "placed_at t name h t' \<longleftrightarrow>
     (\<exists>d e. d \<le> e \<and> slot_at t (probe t h e) = Empty \<and> clear_before t name h e
        \<and> (slot_at t (probe t h d) = Empty \<or> slot_at t (probe t h d) = Tombstone)
        \<and> t' = stored t name (probe t h d))"

definition already_there :: "table \<Rightarrow> string \<Rightarrow> bool" where
  "already_there t name \<longleftrightarrow>
     (\<exists>j. 0 \<le> j \<and> j < current_size t \<and> strcmp_eq (slot_at t j) name)"

text \<open>
  The invariants of the table. Every stored key is reached from its hash index before
  any \<^verbatim>\<open>NULL\<close> cell; no key is stored twice; the counter never exceeds the number of
  stored keys.
\<close>

definition chain_inv :: "table \<Rightarrow> bool" where
  "chain_inv t \<longleftrightarrow>
     (\<forall>j s. 0 \<le> j \<and> j < current_size t \<and> slot_at t j = Occupied s \<longrightarrow>
        (\<exists>h d. hash_function t s = Inr h \<and> 0 \<le> h \<and> h < current_size t
           \<and> probe t h d = j \<and> (\<forall>k<d. slot_at t (probe t h k) \<noteq> Empty)))"

definition unique_keys :: "table \<Rightarrow> bool" where
  "unique_keys t \<longleftrightarrow>
     (\<forall>i j s. 0 \<le> i \<and> i < current_size t \<and> 0 \<le> j \<and> j < current_size t
        \<and> slot_at t i = Occupied s \<and> slot_at t j = Occupied s \<longrightarrow> i = j)"

definition table_inv :: "table \<Rightarrow> bool" where
  "table_inv t \<longleftrightarrow> chain_inv t \<and> unique_keys t \<and> number_of_items t \<le> occupied_count t"

text \<open>
  The table that \<^verbatim>\<open>resize_map\<close> starts from: \<^verbatim>\<open>calloc\<close> gives \<^verbatim>\<open>NULL\<close> cells.
\<close>

definition fresh_table :: "int \<Rightarrow> table" where
  "fresh_table new_size = \<lparr>hash_map = replicate (nat new_size) Empty, number_of_items = 0\<rparr>"

section \<open>The probe walk\<close>

lemma next_index_mod:
  "0 \<le> i \<Longrightarrow> i < current_size t \<Longrightarrow> next_index t i = (i + 1) mod current_size t"
  by (cases "i + 1 = current_size t") (simp_all add: next_index_def)

lemma next_index_range:
  "0 \<le> i \<Longrightarrow> i < current_size t \<Longrightarrow>
   0 \<le> next_index t i \<and> next_index t i < current_size t"
  by (simp add: next_index_def)

lemma probe_0:
  "0 \<le> i \<Longrightarrow> i < current_size t \<Longrightarrow> probe t i 0 = i"
  by (simp add: probe_def)

lemma probe_next:
  "0 \<le> i \<Longrightarrow> i < current_size t \<Longrightarrow> probe t (next_index t i) k = probe t i (Suc k)"
  by (simp add: probe_def next_index_mod mod_simps algebra_simps)

lemma probe_range:
  "0 < current_size t \<Longrightarrow> 0 \<le> probe t h k \<and> probe t h k < current_size t"
  by (simp add: probe_def)

lemma slot_at_in_set:
  "0 \<le> i \<Longrightarrow> i < current_size t \<Longrightarrow> slot_at t i \<in> set (hash_map t)"
  by (simp add: slot_at_def current_size_def)

subsection \<open>The loop of \<^verbatim>\<open>index_of\<close>\<close>

lemma index_of_loop_step:
  "0 \<le> i \<Longrightarrow> i < current_size t \<Longrightarrow>
   index_of_loop t name i =
     (if slot_at t i = Empty then Some (Inr (- 1))
      else if strcmp_eq (slot_at t i) name then Some (Inr i)
      else index_of_loop t name (next_index t i))"
  by (subst index_of_loop.simps) (simp add: read_slot_def slot_at_def split: slot.split)

text \<open>
  A cell whose text equals the name, with no \<^verbatim>\<open>NULL\<close> cell before it on the walk, stops
  the loop at a cell whose text equals the name.
\<close>

lemma index_of_loop_found:
  assumes "0 \<le> i" "i < current_size t"
    and "strcmp_eq (slot_at t (probe t i d)) name"
    and "\<forall>k<d. slot_at t (probe t i k) \<noteq> Empty"
  shows "\<exists>j. index_of_loop t name i = Some (Inr j) \<and> 0 \<le> j \<and> j < current_size t
             \<and> strcmp_eq (slot_at t j) name"
  using assms
proof (induction d arbitrary: i)
  case 0
  then have m: "strcmp_eq (slot_at t i) name" by (simp add: probe_0)
  then have "slot_at t i \<noteq> Empty" by auto
  with 0 m show ?case by (simp add: index_of_loop_step)
next
  case (Suc d)
  from Suc.prems have ne: "slot_at t i \<noteq> Empty"
    using probe_0 [of i t] by (metis zero_less_Suc)
  show ?case
  proof (cases "strcmp_eq (slot_at t i) name")
    case True
    with ne Suc.prems show ?thesis by (simp add: index_of_loop_step)
  next
    case False
    have r: "0 \<le> next_index t i" "next_index t i < current_size t"
      using next_index_range Suc.prems by auto
    have "strcmp_eq (slot_at t (probe t (next_index t i) d)) name"
      using Suc.prems by (simp add: probe_next)
    moreover have "\<forall>k<d. slot_at t (probe t (next_index t i) k) \<noteq> Empty"
      using Suc.prems by (simp add: probe_next)
    ultimately obtain j where "index_of_loop t name (next_index t i) = Some (Inr j)"
      "0 \<le> j" "j < current_size t" "strcmp_eq (slot_at t j) name"
      using Suc.IH [OF r] by blast
    with ne False Suc.prems show ?thesis by (simp add: index_of_loop_step)
  qed
qed

text \<open>Whatever the loop returns is \<open>-1\<close> or the index of a cell whose text equals the name.\<close>

lemma index_of_loop_result:
  assumes "index_of_loop t name i = Some y"
  shows "\<forall>r. y = Inr r \<longrightarrow>
           r = - 1 \<or> (0 \<le> r \<and> r < current_size t \<and> strcmp_eq (slot_at t r) name)"
proof (rule index_of_loop.raw_induct
    [where P = "\<lambda>t name i y. \<forall>r. y = Inr r \<longrightarrow>
           r = - 1 \<or> (0 \<le> r \<and> r < current_size t \<and> strcmp_eq (slot_at t r) name)",
      OF _ assms])
  fix f t name index y
  assume IH: "\<And>t name index y. f t name index = Some y \<Longrightarrow>
     \<forall>r. y = Inr r \<longrightarrow>
           r = - 1 \<or> (0 \<le> r \<and> r < current_size t \<and> strcmp_eq (slot_at t r) name)"
    and body: "(case read_slot t index of
        Inl e \<Rightarrow> Some (Inl e)
      | Inr Empty \<Rightarrow> Some (Inr (- 1))
      | Inr s \<Rightarrow>
          if strcmp_eq s name then Some (Inr index)
          else f t name (next_index t index)) = Some y"
  show "\<forall>r. y = Inr r \<longrightarrow>
           r = - 1 \<or> (0 \<le> r \<and> r < current_size t \<and> strcmp_eq (slot_at t r) name)"
    using body IH [of t name "next_index t index" y]
    by (auto simp: read_slot_def slot_at_def split: if_splits sum.splits slot.splits)
qed

text \<open>
  With no \<^verbatim>\<open>NULL\<close> cell in the array and no cell whose text equals the name, the loop
  has no exit.
\<close>

lemma index_of_loop_diverges:
  assumes full: "\<forall>s\<in>set (hash_map t). s \<noteq> Empty \<and> \<not> strcmp_eq s name"
    and i: "0 \<le> i" "i < current_size t"
  shows "index_of_loop t name i = None"
proof (rule ccontr)
  assume "index_of_loop t name i \<noteq> None"
  then obtain y where y: "index_of_loop t name i = Some y" by auto
  have "(\<forall>s\<in>set (hash_map t). s \<noteq> Empty \<and> \<not> strcmp_eq s name) \<longrightarrow>
        0 \<le> i \<and> i < current_size t \<longrightarrow> False"
  proof (rule index_of_loop.raw_induct
    [where P = "\<lambda>t name i y. (\<forall>s\<in>set (hash_map t). s \<noteq> Empty \<and> \<not> strcmp_eq s name) \<longrightarrow>
        0 \<le> i \<and> i < current_size t \<longrightarrow> False", OF _ y])
    fix f t name index y
    assume IH: "\<And>t name index y. f t name index = Some y \<Longrightarrow>
       (\<forall>s\<in>set (hash_map t). s \<noteq> Empty \<and> \<not> strcmp_eq s name) \<longrightarrow>
        0 \<le> index \<and> index < current_size t \<longrightarrow> False"
    and body: "(case read_slot t index of
        Inl e \<Rightarrow> Some (Inl e)
      | Inr Empty \<Rightarrow> Some (Inr (- 1))
      | Inr s \<Rightarrow>
          if strcmp_eq s name then Some (Inr index)
          else f t name (next_index t index)) = Some y"
    show "(\<forall>s\<in>set (hash_map t). s \<noteq> Empty \<and> \<not> strcmp_eq s name) \<longrightarrow>
        0 \<le> index \<and> index < current_size t \<longrightarrow> False"
    proof (intro impI)
      assume full: "\<forall>s\<in>set (hash_map t). s \<noteq> Empty \<and> \<not> strcmp_eq s name"
        and r: "0 \<le> index \<and> index < current_size t"
      then have here: "slot_at t index \<noteq> Empty" "\<not> strcmp_eq (slot_at t index) name"
        using slot_at_in_set by blast+
      from r have "read_slot t index = Inr (slot_at t index)"
        by (simp add: read_slot_def slot_at_def)
      with body here have "f t name (next_index t index) = Some y"
        by (simp split: slot.splits)
      from IH [OF this] full next_index_range [of index t] r show False by blast
    qed
  qed
  with full i show False by blast
qed

subsection \<open>The loop of \<^verbatim>\<open>add_to_map_without_resizing\<close>\<close>

lemma next_index_probe:
  "0 < current_size t \<Longrightarrow> next_index t (probe t h e) = probe t h (Suc e)"
  using next_index_mod [of "probe t h e" t] probe_range [of t h e]
  by (simp add: probe_def mod_simps algebra_simps)

lemma read_slot_in_range:
  "0 \<le> i \<Longrightarrow> i < current_size t \<Longrightarrow> read_slot t i = Inr (slot_at t i)"
  by (simp add: read_slot_def slot_at_def)

lemma store_name_in_range:
  "0 \<le> p \<Longrightarrow> p < current_size t \<Longrightarrow> store_name t name p = Inr t' \<Longrightarrow>
   t' = stored t name p"
  by (auto simp: store_name_def write_slot_def stored_def split: if_splits)

lemma clear_before_Suc:
  "clear_before t name h e \<Longrightarrow> slot_at t (probe t h e) \<noteq> Empty \<Longrightarrow>
   \<not> strcmp_eq (slot_at t (probe t h e)) name \<Longrightarrow> clear_before t name h (Suc e)"
  by (auto simp: clear_before_def less_Suc_eq)

lemma add_loop_result:
  assumes "add_loop t name i fti = Some y"
  shows "\<forall>h e t'. 0 < current_size t \<and> i = probe t h e \<and> clear_before t name h e
           \<and> (fti = - 1 \<or> (\<exists>d<e. fti = probe t h d \<and> slot_at t fti = Tombstone))
           \<and> y = Inr t'
           \<longrightarrow> (t' = t \<and> already_there t name) \<or> placed_at t name h t'"
proof (rule add_loop.raw_induct
    [where P = "\<lambda>t name i fti y. \<forall>h e t'. 0 < current_size t \<and> i = probe t h e
           \<and> clear_before t name h e
           \<and> (fti = - 1 \<or> (\<exists>d<e. fti = probe t h d \<and> slot_at t fti = Tombstone))
           \<and> y = Inr t'
           \<longrightarrow> (t' = t \<and> already_there t name) \<or> placed_at t name h t'",
      OF _ assms])
  fix f t name index fti y
  assume IH: "\<And>t name i fti y. f t name i fti = Some y \<Longrightarrow>
      \<forall>h e t'. 0 < current_size t \<and> i = probe t h e \<and> clear_before t name h e
           \<and> (fti = - 1 \<or> (\<exists>d<e. fti = probe t h d \<and> slot_at t fti = Tombstone))
           \<and> y = Inr t'
           \<longrightarrow> (t' = t \<and> already_there t name) \<or> placed_at t name h t'"
    and body: "(case read_slot t index of
        Inl e \<Rightarrow> Some (Inl e)
      | Inr Empty \<Rightarrow>
          Some (store_name t name (if fti = - 1 then index else fti))
      | Inr s \<Rightarrow>
          if strcmp_eq s name then Some (Inr t)
          else f t name (next_index t index)
                 (if fti = - 1 \<and> s = Tombstone then index else fti)) = Some y"
  show "\<forall>h e t'. 0 < current_size t \<and> index = probe t h e \<and> clear_before t name h e
           \<and> (fti = - 1 \<or> (\<exists>d<e. fti = probe t h d \<and> slot_at t fti = Tombstone))
           \<and> y = Inr t'
           \<longrightarrow> (t' = t \<and> already_there t name) \<or> placed_at t name h t'"
  proof (intro allI impI, elim conjE)
    fix h e t'
    assume n: "0 < current_size t" and idx: "index = probe t h e"
      and clear: "clear_before t name h e"
      and fti: "fti = - 1 \<or> (\<exists>d<e. fti = probe t h d \<and> slot_at t fti = Tombstone)"
      and y: "y = Inr t'"
    have rng: "0 \<le> index" "index < current_size t"
      using probe_range [OF n] idx by auto
    have rd: "read_slot t index = Inr (slot_at t index)"
      using rng by (rule read_slot_in_range)
    show "(t' = t \<and> already_there t name) \<or> placed_at t name h t'"
    proof (cases "slot_at t index = Empty")
      case True
      with body rd y have st: "store_name t name (if fti = - 1 then index else fti) = Inr t'"
        by simp
      show ?thesis
      proof (cases "fti = - 1")
        case True
        with st rng have "t' = stored t name (probe t h e)"
          using store_name_in_range idx by auto
        with \<open>slot_at t index = Empty\<close> clear idx have "placed_at t name h t'"
          unfolding placed_at_def by blast
        then show ?thesis ..
      next
        case False
        with fti obtain d where d: "d < e" "fti = probe t h d" "slot_at t fti = Tombstone"
          by auto
        have "0 \<le> fti" "fti < current_size t" using probe_range [OF n] d by auto
        with st False have "t' = stored t name (probe t h d)"
          using store_name_in_range d by auto
        with \<open>slot_at t index = Empty\<close> clear idx d have "placed_at t name h t'"
          unfolding placed_at_def by (metis less_imp_le_nat)
        then show ?thesis ..
      qed
    next
      case ne: False
      show ?thesis
      proof (cases "strcmp_eq (slot_at t index) name")
        case True
        with body rd ne y have "t' = t" by (simp split: slot.splits)
        moreover have "already_there t name"
          unfolding already_there_def using True rng by blast
        ultimately show ?thesis by simp
      next
        case False
        let ?fti' = "if fti = - 1 \<and> slot_at t index = Tombstone then index else fti"
        from body rd ne False have rec: "f t name (next_index t index) ?fti' = Some y"
          by (cases "slot_at t index") auto
        have nx: "next_index t index = probe t h (Suc e)"
          using next_index_probe [OF n] idx by simp
        have clear': "clear_before t name h (Suc e)"
          using clear ne False idx by (simp add: clear_before_Suc)
        have fti': "?fti' = - 1 \<or> (\<exists>d<Suc e. ?fti' = probe t h d \<and> slot_at t ?fti' = Tombstone)"
          using fti idx by (auto simp: less_Suc_eq)
        from IH [OF rec] n nx clear' fti' y show ?thesis by blast
      qed
    qed
  qed
qed

lemma add_loop_step:
  "0 \<le> i \<Longrightarrow> i < current_size t \<Longrightarrow>
   add_loop t name i fti =
     (if slot_at t i = Empty
      then Some (store_name t name (if fti = - 1 then i else fti))
      else if strcmp_eq (slot_at t i) name then Some (Inr t)
      else add_loop t name (next_index t i)
             (if fti = - 1 \<and> slot_at t i = Tombstone then i else fti))"
  by (subst add_loop.simps) (simp add: read_slot_def slot_at_def split: slot.split)

lemma add_loop_out_of_range:
  "\<not> (0 \<le> i \<and> i < current_size t) \<Longrightarrow> add_loop t name i fti = Some (Inl OutOfBounds)"
  by (subst add_loop.simps) (auto simp: read_slot_def)

lemma add_without_resizing_result:
  assumes "add_to_map_without_resizing t name = Some (Inr t')"
  shows "\<exists>h. hash_function t name = Inr h \<and> 0 \<le> h \<and> h < current_size t
           \<and> ((t' = t \<and> already_there t name) \<or> placed_at t name h t')"
proof -
  from assms obtain h where h: "hash_function t name = Inr h"
    and loop: "add_loop t name h (- 1) = Some (Inr t')"
    by (auto simp: add_to_map_without_resizing_def split: sum.splits)
  have rng: "0 \<le> h \<and> h < current_size t"
    using loop add_loop_out_of_range [of h t name "- 1"] by auto
  then have "h = probe t h 0" by (simp add: probe_0)
  moreover have "clear_before t name h 0" by (simp add: clear_before_def)
  ultimately have "(t' = t \<and> already_there t name) \<or> placed_at t name h t'"
    using add_loop_result [OF loop] rng by (metis le_less_trans)
  with h rng show ?thesis by blast
qed

lemma add_loop_dup:
  assumes "0 \<le> i" "i < current_size t"
    and "strcmp_eq (slot_at t (probe t i d)) name"
    and "\<forall>k<d. slot_at t (probe t i k) \<noteq> Empty"
  shows "add_loop t name i fti = Some (Inr t)"
  using assms
proof (induction d arbitrary: i fti)
  case 0
  then have m: "strcmp_eq (slot_at t i) name" by (simp add: probe_0)
  then have "slot_at t i \<noteq> Empty" by auto
  with 0 m show ?case by (simp add: add_loop_step)
next
  case (Suc d)
  from Suc.prems have ne: "slot_at t i \<noteq> Empty"
    using probe_0 [of i t] by (metis zero_less_Suc)
  show ?case
  proof (cases "strcmp_eq (slot_at t i) name")
    case True
    with ne Suc.prems show ?thesis by (simp add: add_loop_step)
  next
    case False
    have r: "0 \<le> next_index t i" "next_index t i < current_size t"
      using next_index_range Suc.prems by auto
    have "strcmp_eq (slot_at t (probe t (next_index t i) d)) name"
      using Suc.prems by (simp add: probe_next)
    moreover have "\<forall>k<d. slot_at t (probe t (next_index t i) k) \<noteq> Empty"
      using Suc.prems by (simp add: probe_next)
    ultimately have "add_loop t name (next_index t i)
        (if fti = - 1 \<and> slot_at t i = Tombstone then i else fti) = Some (Inr t)"
      using Suc.IH [OF r] by blast
    with ne False Suc.prems show ?thesis by (simp add: add_loop_step)
  qed
qed

section \<open>Writing one cell\<close>

lemma same_size_hash:
  "current_size t' = current_size t \<Longrightarrow> hash_function t' name = hash_function t name"
  by (simp add: hash_function_def)

lemma same_size_probe:
  "current_size t' = current_size t \<Longrightarrow> probe t' h k = probe t h k"
  by (simp add: probe_def)

lemma update_size:
  "hash_map t' = (hash_map t)[nat p := v] \<Longrightarrow> current_size t' = current_size t"
  by (simp add: current_size_def)

lemma update_slot_at:
  assumes "hash_map t' = (hash_map t)[nat p := v]" "0 \<le> p" "p < current_size t" "0 \<le> j"
  shows "slot_at t' j = (if j = p then v else slot_at t j)"
  using assms by (auto simp: slot_at_def current_size_def nth_list_update)

lemma filter_update_length:
  "i < length xs \<Longrightarrow>
   int (length (filter P (xs[i := v]))) =
     int (length (filter P xs)) - of_bool (P (xs ! i)) + of_bool (P v)"
proof (induction xs arbitrary: i)
  case Nil
  then show ?case by simp
next
  case (Cons x xs)
  then show ?case by (cases i) auto
qed

lemma update_occupied_count:
  assumes "hash_map t' = (hash_map t)[nat p := v]" "0 \<le> p" "p < current_size t"
  shows "occupied_count t' =
           occupied_count t - of_bool (is_occupied (slot_at t p)) + of_bool (is_occupied v)"
  using assms filter_update_length [of "nat p" "hash_map t" is_occupied v]
  by (simp add: occupied_count_def slot_at_def current_size_def)

lemma update_chain_inv:
  assumes inv: "chain_inv t"
    and upd: "hash_map t' = (hash_map t)[nat p := v]"
    and p: "0 \<le> p" "p < current_size t"
    and v: "v \<noteq> Empty"
    and new: "\<forall>s. v = Occupied s \<longrightarrow>
        (\<exists>h d. hash_function t s = Inr h \<and> 0 \<le> h \<and> h < current_size t
           \<and> probe t h d = p \<and> (\<forall>k<d. slot_at t (probe t h k) \<noteq> Empty))"
  shows "chain_inv t'"
  unfolding chain_inv_def
proof (intro allI impI, elim conjE)
  fix j s
  assume j: "0 \<le> j" "j < current_size t'" and occ: "slot_at t' j = Occupied s"
  have sz: "current_size t' = current_size t" using upd by (rule update_size)
  have n: "0 < current_size t" using p by simp
  have at: "\<And>i. 0 \<le> i \<Longrightarrow> slot_at t' i = (if i = p then v else slot_at t i)"
    using update_slot_at [OF upd p] by simp
  have ne: "\<And>h k. slot_at t (probe t h k) \<noteq> Empty \<Longrightarrow> slot_at t' (probe t h k) \<noteq> Empty"
    using at probe_range [OF n] v by simp
  have "\<exists>h d. hash_function t s = Inr h \<and> 0 \<le> h \<and> h < current_size t
           \<and> probe t h d = j \<and> (\<forall>k<d. slot_at t (probe t h k) \<noteq> Empty)"
  proof (cases "j = p")
    case True
    with occ at j have "v = Occupied s" by simp
    with new True show ?thesis by blast
  next
    case False
    with occ at j have "slot_at t j = Occupied s" by simp
    moreover from j sz have "j < current_size t" by simp
    ultimately show ?thesis using inv j(1) unfolding chain_inv_def by blast
  qed
  then obtain h d where "hash_function t s = Inr h" "0 \<le> h" "h < current_size t"
    "probe t h d = j" "\<forall>k<d. slot_at t (probe t h k) \<noteq> Empty" by blast
  then have "hash_function t' s = Inr h \<and> 0 \<le> h \<and> h < current_size t'
           \<and> probe t' h d = j \<and> (\<forall>k<d. slot_at t' (probe t' h k) \<noteq> Empty)"
    using sz ne by (simp add: same_size_hash [OF sz] same_size_probe [OF sz])
  then show "\<exists>h d. hash_function t' s = Inr h \<and> 0 \<le> h \<and> h < current_size t'
           \<and> probe t' h d = j \<and> (\<forall>k<d. slot_at t' (probe t' h k) \<noteq> Empty)" by blast
qed

lemma update_unique_keys:
  assumes inv: "unique_keys t"
    and upd: "hash_map t' = (hash_map t)[nat p := v]"
    and p: "0 \<le> p" "p < current_size t"
    and new: "\<forall>s j. v = Occupied s \<and> 0 \<le> j \<and> j < current_size t \<and> j \<noteq> p
                \<longrightarrow> slot_at t j \<noteq> Occupied s"
  shows "unique_keys t'"
  unfolding unique_keys_def
proof (intro allI impI, elim conjE)
  fix i j s
  assume i: "0 \<le> i" "i < current_size t'" and j: "0 \<le> j" "j < current_size t'"
    and oi: "slot_at t' i = Occupied s" and oj: "slot_at t' j = Occupied s"
  have sz: "current_size t' = current_size t" using upd by (rule update_size)
  have at: "\<And>i. 0 \<le> i \<Longrightarrow> slot_at t' i = (if i = p then v else slot_at t i)"
    using update_slot_at [OF upd p] by simp
  show "i = j"
  proof (cases "i = p")
    case ip: True
    show ?thesis
    proof (cases "j = p")
      case True with ip show ?thesis by simp
    next
      case False
      with at j oj have "slot_at t j = Occupied s" by simp
      moreover from ip at i oi have "v = Occupied s" by simp
      ultimately show ?thesis using new j sz False by auto
    qed
  next
    case ip: False
    with at i oi have si: "slot_at t i = Occupied s" by simp
    show ?thesis
    proof (cases "j = p")
      case True
      with at j oj have "v = Occupied s" by simp
      with si show ?thesis using new i sz ip by auto
    next
      case False
      with at j oj have "slot_at t j = Occupied s" by simp
      with si inv i j sz show ?thesis unfolding unique_keys_def by auto
    qed
  qed
qed

section \<open>The invariants are kept\<close>

subsection \<open>By \<^verbatim>\<open>add_to_map_without_resizing\<close> and \<^verbatim>\<open>remove_from_map\<close>\<close>

lemma stored_hash_map:
  "hash_map (stored t name p) = (hash_map t)[nat p := Occupied name]"
  by (simp add: stored_def)

lemma stored_count: "number_of_items (stored t name p) = number_of_items t + 1"
  by (simp add: stored_def)

lemma chain_invD:
  "chain_inv t \<Longrightarrow> 0 \<le> j \<Longrightarrow> j < current_size t \<Longrightarrow> slot_at t j = Occupied s \<Longrightarrow>
   \<exists>h d. hash_function t s = Inr h \<and> 0 \<le> h \<and> h < current_size t
      \<and> probe t h d = j \<and> (\<forall>k<d. slot_at t (probe t h k) \<noteq> Empty)"
  unfolding chain_inv_def by blast

text \<open>Where the walk for a name ends at a NULL cell without a match, the name is in no cell.\<close>

lemma clear_walk_not_stored:
  assumes inv: "chain_inv t"
    and h: "hash_function t name = Inr h"
    and e: "slot_at t (probe t h e) = Empty" "clear_before t name h e"
    and j: "0 \<le> j" "j < current_size t"
  shows "slot_at t j \<noteq> Occupied name"
proof
  assume occ: "slot_at t j = Occupied name"
  from chain_invD [OF inv j occ] h obtain d where
    d: "probe t h d = j" "\<forall>k<d. slot_at t (probe t h k) \<noteq> Empty" by auto
  show False
  proof (cases "d < e")
    case True
    with e(2) have "\<not> strcmp_eq (slot_at t (probe t h d)) name"
      by (simp add: clear_before_def)
    with d(1) occ show False by simp
  next
    case False
    show False
    proof (cases "d = e")
      case True
      with d(1) occ e(1) show False by simp
    next
      case ne: False
      with False have "e < d" by simp
      with d(2) e(1) show False by blast
    qed
  qed
qed

lemma occupied_count_le_size: "occupied_count t \<le> current_size t"
  by (simp add: occupied_count_def current_size_def)

lemma placed_at_table_inv:
  assumes inv: "table_inv t"
    and h: "hash_function t name = Inr h" "0 \<le> h" "h < current_size t"
    and pl: "placed_at t name h t'"
  shows "table_inv t'"
proof -
  from pl obtain d e where de: "d \<le> e"
    and e: "slot_at t (probe t h e) = Empty" "clear_before t name h e"
    and free: "slot_at t (probe t h d) = Empty \<or> slot_at t (probe t h d) = Tombstone"
    and t': "t' = stored t name (probe t h d)"
    unfolding placed_at_def by blast
  let ?p = "probe t h d"
  have n: "0 < current_size t" using h by simp
  have p: "0 \<le> ?p" "?p < current_size t" using probe_range [OF n] by auto
  have upd: "hash_map t' = (hash_map t)[nat ?p := Occupied name]"
    using t' by (simp add: stored_hash_map)
  from inv have ci: "chain_inv t" and uk: "unique_keys t"
    and cnt: "number_of_items t \<le> occupied_count t"
    by (simp_all add: table_inv_def)
  have clear_d: "\<forall>k<d. slot_at t (probe t h k) \<noteq> Empty"
    using e(2) de by (simp add: clear_before_def)
  have "chain_inv t'"
    by (rule update_chain_inv [OF ci upd p]) (use h clear_d in auto)
  moreover have "unique_keys t'"
  proof (rule update_unique_keys [OF uk upd p], intro allI impI, elim conjE)
    fix s j
    assume "Occupied name = Occupied s" "0 \<le> j" "j < current_size t"
    then show "slot_at t j \<noteq> Occupied s"
      using clear_walk_not_stored [OF ci h(1) e] by auto
  qed
  moreover have "number_of_items t' \<le> occupied_count t'"
    using update_occupied_count [OF upd p] free cnt t' by (auto simp: stored_count)
  ultimately show ?thesis by (simp add: table_inv_def)
qed

lemma add_without_resizing_table_inv:
  assumes "table_inv t" "add_to_map_without_resizing t name = Some (Inr t')"
  shows "table_inv t'"
  using add_without_resizing_result [OF assms(2)] assms(1) placed_at_table_inv
  by blast

lemma add_without_resizing_size_count:
  assumes "add_to_map_without_resizing t name = Some (Inr t')"
  shows "current_size t' = current_size t \<and> 0 < current_size t
         \<and> number_of_items t' \<le> number_of_items t + 1"
proof -
  from add_without_resizing_result [OF assms] obtain h where
    h: "0 \<le> h" "h < current_size t"
    and r: "(t' = t \<and> already_there t name) \<or> placed_at t name h t'" by blast
  from r show ?thesis
  proof
    assume "t' = t \<and> already_there t name"
    with h show ?thesis by simp
  next
    assume "placed_at t name h t'"
    then obtain p where "t' = stored t name p" unfolding placed_at_def by blast
    with h show ?thesis by (auto simp: stored_def current_size_def)
  qed
qed

lemma index_of_result:
  assumes "index_of t name = Some (Inr r)"
  shows "r = - 1 \<or> (0 \<le> r \<and> r < current_size t \<and> strcmp_eq (slot_at t r) name)"
proof -
  from assms obtain h where "index_of_loop t name h = Some (Inr r)"
    by (auto simp: index_of_def split: sum.splits)
  from index_of_loop_result [OF this] show ?thesis by simp
qed

lemma remove_from_map_result:
  assumes "remove_from_map t name = Some (Inr (r, t'))"
  shows "(r = 0 \<and> t' = t) \<or>
         (\<exists>i. r = 1 \<and> 0 \<le> i \<and> i < current_size t \<and> strcmp_eq (slot_at t i) name
            \<and> hash_map t' = (hash_map t)[nat i := Tombstone]
            \<and> number_of_items t' = number_of_items t - 1)"
proof -
  from assms obtain i where i: "index_of t name = Some (Inr i)"
    by (auto simp: remove_from_map_def split: option.splits sum.splits)
  show ?thesis
  proof (cases "i = - 1")
    case True
    with assms i show ?thesis by (simp add: remove_from_map_def)
  next
    case False
    with index_of_result [OF i] have rng: "0 \<le> i" "i < current_size t"
      and m: "strcmp_eq (slot_at t i) name" by auto
    from assms i False rng have "r = 1 \<and> hash_map t' = (hash_map t)[nat i := Tombstone]
            \<and> number_of_items t' = number_of_items t - 1"
      by (auto simp: remove_from_map_def write_slot_def split: if_splits)
    with rng m show ?thesis by blast
  qed
qed

lemma remove_from_map_table_inv:
  assumes inv: "table_inv t" and rm: "remove_from_map t name = Some (Inr (r, t'))"
  shows "table_inv t'"
proof -
  from remove_from_map_result [OF rm] show ?thesis
  proof
    assume "r = 0 \<and> t' = t"
    with inv show ?thesis by simp
  next
    assume "\<exists>i. r = 1 \<and> 0 \<le> i \<and> i < current_size t \<and> strcmp_eq (slot_at t i) name
            \<and> hash_map t' = (hash_map t)[nat i := Tombstone]
            \<and> number_of_items t' = number_of_items t - 1"
    then obtain i where i: "0 \<le> i" "i < current_size t"
      and upd: "hash_map t' = (hash_map t)[nat i := Tombstone]"
      and c: "number_of_items t' = number_of_items t - 1" by blast
    from inv have ci: "chain_inv t" and uk: "unique_keys t"
      and cnt: "number_of_items t \<le> occupied_count t"
      by (simp_all add: table_inv_def)
    have "chain_inv t'" by (rule update_chain_inv [OF ci upd i]) simp_all
    moreover have "unique_keys t'" by (rule update_unique_keys [OF uk upd i]) simp
    moreover have "number_of_items t' \<le> occupied_count t'"
      using update_occupied_count [OF upd i] cnt c by simp
    ultimately show ?thesis by (simp add: table_inv_def)
  qed
qed

subsection \<open>By \<^verbatim>\<open>resize_map\<close>, \<^verbatim>\<open>add_to_map\<close> and sequences of calls\<close>

lemma fresh_slot_at:
  "0 \<le> j \<Longrightarrow> j < current_size (fresh_table n) \<Longrightarrow> slot_at (fresh_table n) j = Empty"
proof -
  assume "0 \<le> j" "j < current_size (fresh_table n)"
  then have "nat j < nat n" by (simp add: fresh_table_def current_size_def split: if_splits)
  then show ?thesis by (simp add: fresh_table_def slot_at_def)
qed

lemma fresh_table_inv: "table_inv (fresh_table n)"
proof -
  have "chain_inv (fresh_table n)"
    unfolding chain_inv_def using fresh_slot_at [of _ n] by (metis slot.distinct(3))
  moreover have "unique_keys (fresh_table n)"
    unfolding unique_keys_def using fresh_slot_at [of _ n] by (metis slot.distinct(3))
  moreover have "number_of_items (fresh_table n) \<le> occupied_count (fresh_table n)"
    by (simp add: fresh_table_def occupied_count_def)
  ultimately show ?thesis by (simp add: table_inv_def)
qed

lemma readd_table_inv:
  "table_inv u \<Longrightarrow> readd old u = Some (Inr u') \<Longrightarrow> table_inv u'"
proof (induction old u rule: readd.induct)
  case (2 name old_map t)
  from "2.prems"(2) obtain t1 where a: "add_to_map_without_resizing t name = Some (Inr t1)"
    and r: "readd old_map t1 = Some (Inr u')"
    by (auto split: option.splits sum.splits)
  from add_without_resizing_table_inv [OF "2.prems"(1) a] have "table_inv t1" .
  with "2.IH" a r show ?case by simp
qed simp_all

lemma readd_size_count:
  "readd old u = Some (Inr u') \<Longrightarrow>
   current_size u' = current_size u
   \<and> number_of_items u' \<le> number_of_items u + int (length old)"
proof (induction old u rule: readd.induct)
  case (2 name old_map t)
  from "2.prems" obtain t1 where a: "add_to_map_without_resizing t name = Some (Inr t1)"
    and r: "readd old_map t1 = Some (Inr u')"
    by (auto split: option.splits sum.splits)
  from "2.IH" [OF a refl r] add_without_resizing_size_count [OF a] show ?case by simp
qed simp_all

lemma resize_map_cases:
  assumes "resize_map t new_size = Some (Inr t')"
  shows "t' = t \<or>
         (1 \<le> new_size \<and> \<not> load_factor_exceeded (number_of_items t) new_size
          \<and> readd (hash_map t) (fresh_table new_size) = Some (Inr t'))"
  using assms by (auto simp: resize_map_def fresh_table_def split: if_splits)

lemma resize_map_table_inv:
  "table_inv t \<Longrightarrow> resize_map t new_size = Some (Inr t') \<Longrightarrow> table_inv t'"
  using resize_map_cases readd_table_inv fresh_table_inv by blast

lemma grow_if_needed_table_inv:
  "table_inv t \<Longrightarrow> grow_if_needed t = Some (Inr t') \<Longrightarrow> table_inv t'"
  using resize_map_table_inv by (auto simp: grow_if_needed_def split: if_splits)

lemma add_to_map_cases:
  assumes "add_to_map t name = Some (Inr t')"
  obtains t1 t2 where
    "(if current_size t = 0 then resize_map t 10 else Some (Inr t)) = Some (Inr t1)"
    "add_to_map_without_resizing t1 name = Some (Inr t2)"
    "grow_if_needed t2 = Some (Inr t')"
  using assms unfolding add_to_map_def
  by (auto split: option.splits sum.splits)

lemma add_to_map_table_inv:
  assumes "table_inv t" "add_to_map t name = Some (Inr t')"
  shows "table_inv t'"
proof -
  from assms(2) obtain t1 t2 where
    a: "(if current_size t = 0 then resize_map t 10 else Some (Inr t)) = Some (Inr t1)"
    and b: "add_to_map_without_resizing t1 name = Some (Inr t2)"
    and c: "grow_if_needed t2 = Some (Inr t')"
    by (rule add_to_map_cases)
  from a assms(1) have "table_inv t1"
    using resize_map_table_inv by (auto split: if_splits)
  from add_without_resizing_table_inv [OF this b] have "table_inv t2" .
  from grow_if_needed_table_inv [OF this c] show ?thesis .
qed

lemma step_table_inv:
  "table_inv t \<Longrightarrow> step t op = Some (Inr t') \<Longrightarrow> table_inv t'"
proof (cases op)
  case (Insert k)
  assume "table_inv t" "step t op = Some (Inr t')"
  with Insert show ?thesis using add_to_map_table_inv by simp
next
  case (Delete k)
  assume "table_inv t" "step t op = Some (Inr t')"
  with Delete show ?thesis using remove_from_map_table_inv
    by (auto split: option.splits sum.splits)
next
  case (Search k)
  assume "table_inv t" "step t op = Some (Inr t')"
  with Search show ?thesis by (auto split: option.splits sum.splits)
next
  case (Resize n)
  assume "table_inv t" "step t op = Some (Inr t')"
  with Resize show ?thesis using resize_map_table_inv by simp
qed

lemma run_Cons:
  "run t (op # ops) = Some (Inr t') \<Longrightarrow>
   \<exists>t1. step t op = Some (Inr t1) \<and> run t1 ops = Some (Inr t')"
  by (auto split: option.splits sum.splits)

lemma run_table_inv:
  "table_inv t \<Longrightarrow> run t ops = Some (Inr t') \<Longrightarrow> table_inv t'"
proof (induction ops arbitrary: t)
  case Nil
  then show ?case by simp
next
  case (Cons op ops)
  from run_Cons [OF Cons.prems(2)] obtain t1 where
    "step t op = Some (Inr t1)" "run t1 ops = Some (Inr t')" by blast
  with Cons.IH step_table_inv [OF Cons.prems(1)] show ?case by blast
qed

lemma uninitialised_table_inv: "table_inv uninitialised"
  by (auto simp: table_inv_def chain_inv_def unique_keys_def uninitialised_def
      current_size_def occupied_count_def)

text \<open>Every table that a sequence of calls reaches from the uninitialised one.\<close>

lemma reachable_table_inv:
  "run uninitialised ops = Some (Inr t) \<Longrightarrow> table_inv t"
  using uninitialised_table_inv by (rule run_table_inv)

lemma resize_map_accepted:
  "1 \<le> new_size \<Longrightarrow> \<not> load_factor_exceeded (number_of_items t) new_size \<Longrightarrow>
   resize_map t new_size = readd (hash_map t) (fresh_table new_size)"
  by (simp add: resize_map_def fresh_table_def)

lemma grow_if_needed_ceiling:
  assumes inv: "table_inv t" and n: "0 < current_size t"
    and g: "grow_if_needed t = Some (Inr t')"
  shows "0 < current_size t' \<and> 10 * number_of_items t' \<le> 7 * current_size t'"
proof (cases "load_factor_exceeded (number_of_items t) (current_size t)")
  case False
  with g n show ?thesis by (simp add: grow_if_needed_def load_factor_exceeded_def)
next
  case True
  with g have rs: "resize_map t (current_size t * 2) = Some (Inr t')"
    by (simp add: grow_if_needed_def split: if_splits)
  from inv have "number_of_items t \<le> occupied_count t" by (simp add: table_inv_def)
  with occupied_count_le_size [of t] have le: "number_of_items t \<le> current_size t" by simp
  with n have ok: "\<not> load_factor_exceeded (number_of_items t) (current_size t * 2)"
    by (simp add: load_factor_exceeded_def)
  from n have "1 \<le> current_size t * 2" by simp
  from resize_map_accepted [OF this ok] rs
  have rd: "readd (hash_map t) (fresh_table (current_size t * 2)) = Some (Inr t')" by simp
  from readd_size_count [OF rd] n
  have "current_size t' = current_size t * 2" "number_of_items t' \<le> current_size t"
    by (simp_all add: fresh_table_def current_size_def)
  with n show ?thesis by simp
qed

lemma add_to_map_ceiling:
  assumes "table_inv t" "add_to_map t name = Some (Inr t')"
  shows "0 < current_size t' \<and> 10 * number_of_items t' \<le> 7 * current_size t'"
proof -
  from assms(2) obtain t1 t2 where
    a: "(if current_size t = 0 then resize_map t 10 else Some (Inr t)) = Some (Inr t1)"
    and b: "add_to_map_without_resizing t1 name = Some (Inr t2)"
    and c: "grow_if_needed t2 = Some (Inr t')"
    by (rule add_to_map_cases)
  from a assms(1) have "table_inv t1"
    using resize_map_table_inv by (auto split: if_splits)
  from add_without_resizing_table_inv [OF this b] have "table_inv t2" .
  moreover from add_without_resizing_size_count [OF b] have "0 < current_size t2" by simp
  ultimately show ?thesis using c by (rule grow_if_needed_ceiling)
qed

section \<open>Stored keys stay stored and are found\<close>

lemma stored_iff_slot:
  "Occupied k \<in> set (hash_map t) \<longleftrightarrow>
     (\<exists>j. 0 \<le> j \<and> j < current_size t \<and> slot_at t j = Occupied k)"
proof
  assume "Occupied k \<in> set (hash_map t)"
  then obtain i where "i < length (hash_map t)" "hash_map t ! i = Occupied k"
    by (auto simp: in_set_conv_nth)
  then have "0 \<le> int i \<and> int i < current_size t \<and> slot_at t (int i) = Occupied k"
    by (simp add: current_size_def slot_at_def)
  then show "\<exists>j. 0 \<le> j \<and> j < current_size t \<and> slot_at t j = Occupied k" ..
next
  assume "\<exists>j. 0 \<le> j \<and> j < current_size t \<and> slot_at t j = Occupied k"
  then obtain j where "0 \<le> j" "j < current_size t" "slot_at t j = Occupied k" by blast
  with slot_at_in_set [of j t] show "Occupied k \<in> set (hash_map t)" by simp
qed

lemma update_keeps_key:
  assumes upd: "hash_map (t'::table) = (hash_map t)[nat p := v]"
    and p: "0 \<le> p" "p < current_size t"
    and other: "slot_at t p \<noteq> Occupied k"
    and k: "Occupied k \<in> set (hash_map t)"
  shows "Occupied k \<in> set (hash_map t')"
proof -
  from k obtain j where j: "0 \<le> j" "j < current_size t" "slot_at t j = Occupied k"
    by (auto simp: stored_iff_slot)
  with other have "j \<noteq> p" by auto
  with update_slot_at [OF upd p j(1)] j(3) have "slot_at t' j = Occupied k" by simp
  with j update_size [OF upd] show ?thesis by (auto simp: stored_iff_slot)
qed

lemma placed_at_update:
  assumes "0 < current_size t" "placed_at t name h t'"
  obtains p where "0 \<le> p" "p < current_size t"
    "slot_at t p = Empty \<or> slot_at t p = Tombstone"
    "hash_map t' = (hash_map t)[nat p := Occupied name]"
proof -
  from assms(2) obtain d where
    d: "slot_at t (probe t h d) = Empty \<or> slot_at t (probe t h d) = Tombstone"
    "t' = stored t name (probe t h d)"
    unfolding placed_at_def by blast
  show ?thesis
  proof (rule that [of "probe t h d"])
    show "0 \<le> probe t h d" "probe t h d < current_size t"
      using probe_range [OF assms(1), of h d] by simp_all
    show "slot_at t (probe t h d) = Empty \<or> slot_at t (probe t h d) = Tombstone"
      by (rule d(1))
    show "hash_map t' = (hash_map t)[nat (probe t h d) := Occupied name]"
      using d(2) by (simp add: stored_hash_map)
  qed
qed

lemma add_without_resizing_keeps_key:
  assumes k: "Occupied k \<in> set (hash_map t)"
    and a: "add_to_map_without_resizing t name = Some (Inr t')"
  shows "Occupied k \<in> set (hash_map t')"
proof -
  from add_without_resizing_result [OF a] obtain h where
    h: "0 \<le> h" "h < current_size t"
    and r: "(t' = t \<and> already_there t name) \<or> placed_at t name h t'" by blast
  from r show ?thesis
  proof
    assume "t' = t \<and> already_there t name"
    with k show ?thesis by simp
  next
    assume pl: "placed_at t name h t'"
    from h have "0 < current_size t" by simp
    from placed_at_update [OF this pl] obtain p where p: "0 \<le> p" "p < current_size t"
      and free: "slot_at t p = Empty \<or> slot_at t p = Tombstone"
      and upd: "hash_map t' = (hash_map t)[nat p := Occupied name]" by blast
    from free have "slot_at t p \<noteq> Occupied k" by auto
    from update_keeps_key [OF upd p this k] show ?thesis .
  qed
qed

text \<open>What a returning call leaves for its own name.\<close>

lemma add_without_resizing_stores:
  assumes a: "add_to_map_without_resizing t name = Some (Inr t')"
  shows "Occupied name \<in> set (hash_map t')
         \<or> (name = tombstone \<and> Tombstone \<in> set (hash_map t))"
proof -
  from add_without_resizing_result [OF a] obtain h where
    h: "0 \<le> h" "h < current_size t"
    and r: "(t' = t \<and> already_there t name) \<or> placed_at t name h t'" by blast
  from r show ?thesis
  proof
    assume d: "t' = t \<and> already_there t name"
    then obtain j where j: "0 \<le> j" "j < current_size t" "strcmp_eq (slot_at t j) name"
      unfolding already_there_def by blast
    show ?thesis
    proof (cases "slot_at t j")
      case Empty
      with j show ?thesis by simp
    next
      case Tombstone
      with j slot_at_in_set [of j t] show ?thesis by auto
    next
      case (Occupied s)
      with j d slot_at_in_set [of j t] show ?thesis by auto
    qed
  next
    assume pl: "placed_at t name h t'"
    from h have "0 < current_size t" by simp
    from placed_at_update [OF this pl] obtain p where p: "0 \<le> p" "p < current_size t"
      and upd: "hash_map t' = (hash_map t)[nat p := Occupied name]" by blast
    from p have "nat p < length (hash_map t)" by (simp add: current_size_def)
    with upd show ?thesis by (simp add: set_update_memI)
  qed
qed

lemma add_without_resizing_no_tombstone:
  assumes nt: "Tombstone \<notin> set (hash_map t)"
    and a: "add_to_map_without_resizing t name = Some (Inr t')"
  shows "Tombstone \<notin> set (hash_map t')"
proof -
  from add_without_resizing_result [OF a] obtain h where
    h: "0 \<le> h" "h < current_size t"
    and r: "(t' = t \<and> already_there t name) \<or> placed_at t name h t'" by blast
  from r show ?thesis
  proof
    assume "t' = t \<and> already_there t name"
    with nt show ?thesis by simp
  next
    assume pl: "placed_at t name h t'"
    from h have "0 < current_size t" by simp
    from placed_at_update [OF this pl] obtain p where
      upd: "hash_map t' = (hash_map t)[nat p := Occupied name]" by blast
    have "set (hash_map t') \<subseteq> insert (Occupied name) (set (hash_map t))"
      unfolding upd by (rule set_update_subset_insert)
    with nt show ?thesis by auto
  qed
qed

lemma readd_keeps_keys:
  "Tombstone \<notin> set (hash_map u) \<Longrightarrow> readd old u = Some (Inr u') \<Longrightarrow>
   Tombstone \<notin> set (hash_map u')
   \<and> (\<forall>k. Occupied k \<in> set old \<or> Occupied k \<in> set (hash_map u)
          \<longrightarrow> Occupied k \<in> set (hash_map u'))"
proof (induction old u rule: readd.induct)
  case (2 name old_map t)
  from "2.prems"(2) obtain t1 where a: "add_to_map_without_resizing t name = Some (Inr t1)"
    and r: "readd old_map t1 = Some (Inr u')"
    by (auto split: option.splits sum.splits)
  have nt1: "Tombstone \<notin> set (hash_map t1)"
    using add_without_resizing_no_tombstone [OF "2.prems"(1) a] .
  from "2.IH" [OF a refl nt1 r]
  have IH: "Tombstone \<notin> set (hash_map u')"
    "\<And>k. Occupied k \<in> set old_map \<or> Occupied k \<in> set (hash_map t1)
          \<Longrightarrow> Occupied k \<in> set (hash_map u')" by auto
  have here: "Occupied name \<in> set (hash_map t1)"
    using add_without_resizing_stores [OF a] "2.prems"(1) by auto
  have old: "\<And>k. Occupied k \<in> set (hash_map t) \<Longrightarrow> Occupied k \<in> set (hash_map t1)"
    using add_without_resizing_keeps_key [OF _ a] .
  show ?case using IH here old by auto
qed simp_all

lemma resize_map_keeps_key:
  assumes k: "Occupied k \<in> set (hash_map t)"
    and r: "resize_map t new_size = Some (Inr t')"
  shows "Occupied k \<in> set (hash_map t')"
proof -
  from resize_map_cases [OF r] show ?thesis
  proof
    assume "t' = t" with k show ?thesis by simp
  next
    assume "1 \<le> new_size \<and> \<not> load_factor_exceeded (number_of_items t) new_size
          \<and> readd (hash_map t) (fresh_table new_size) = Some (Inr t')"
    then have rd: "readd (hash_map t) (fresh_table new_size) = Some (Inr t')" by simp
    have "Tombstone \<notin> set (hash_map (fresh_table new_size))"
      by (simp add: fresh_table_def)
    from readd_keeps_keys [OF this rd] k show ?thesis by blast
  qed
qed

lemma grow_if_needed_keeps_key:
  "Occupied k \<in> set (hash_map t) \<Longrightarrow> grow_if_needed t = Some (Inr t') \<Longrightarrow>
   Occupied k \<in> set (hash_map t')"
  using resize_map_keeps_key by (auto simp: grow_if_needed_def split: if_splits)

lemma add_to_map_keeps_key:
  assumes k: "Occupied k \<in> set (hash_map t)" and a: "add_to_map t name = Some (Inr t')"
  shows "Occupied k \<in> set (hash_map t')"
proof -
  from a obtain t1 t2 where
    a1: "(if current_size t = 0 then resize_map t 10 else Some (Inr t)) = Some (Inr t1)"
    and a2: "add_to_map_without_resizing t1 name = Some (Inr t2)"
    and a3: "grow_if_needed t2 = Some (Inr t')"
    by (rule add_to_map_cases)
  from a1 k have "Occupied k \<in> set (hash_map t1)"
    using resize_map_keeps_key by (auto split: if_splits)
  from add_without_resizing_keeps_key [OF this a2] have "Occupied k \<in> set (hash_map t2)" .
  from grow_if_needed_keeps_key [OF this a3] show ?thesis .
qed

lemma add_to_map_stores:
  assumes a: "add_to_map t name = Some (Inr t')"
  shows "Occupied name \<in> set (hash_map t') \<or> name = tombstone"
proof -
  from a obtain t1 t2 where
    a2: "add_to_map_without_resizing t1 name = Some (Inr t2)"
    and a3: "grow_if_needed t2 = Some (Inr t')"
    by (rule add_to_map_cases)
  from add_without_resizing_stores [OF a2] grow_if_needed_keeps_key [OF _ a3]
  show ?thesis by blast
qed

lemma remove_from_map_keeps_key:
  assumes k: "Occupied k \<in> set (hash_map t)" and ne: "k \<noteq> name"
    and rm: "remove_from_map t name = Some (Inr (r, t'))"
  shows "Occupied k \<in> set (hash_map t')"
proof -
  from remove_from_map_result [OF rm] show ?thesis
  proof
    assume "r = 0 \<and> t' = t" with k show ?thesis by simp
  next
    assume "\<exists>i. r = 1 \<and> 0 \<le> i \<and> i < current_size t \<and> strcmp_eq (slot_at t i) name
            \<and> hash_map t' = (hash_map t)[nat i := Tombstone]
            \<and> number_of_items t' = number_of_items t - 1"
    then obtain i where i: "0 \<le> i" "i < current_size t"
      and m: "strcmp_eq (slot_at t i) name"
      and upd: "hash_map t' = (hash_map t)[nat i := Tombstone]" by blast
    from m ne have "slot_at t i \<noteq> Occupied k" by auto
    from update_keeps_key [OF upd i this k] show ?thesis .
  qed
qed

lemma step_keeps_key:
  assumes k: "Occupied k \<in> set (hash_map t)" and ne: "op \<noteq> Delete k"
    and s: "step t op = Some (Inr t')"
  shows "Occupied k \<in> set (hash_map t')"
proof (cases op)
  case (Insert name)
  with s k show ?thesis using add_to_map_keeps_key by simp
next
  case (Delete name)
  with ne have "k \<noteq> name" by simp
  with Delete s k show ?thesis using remove_from_map_keeps_key
    by (auto split: option.splits sum.splits)
next
  case (Search name)
  with s k show ?thesis by (auto split: option.splits sum.splits)
next
  case (Resize n)
  with s k show ?thesis using resize_map_keeps_key by simp
qed

lemma run_keeps_key:
  "Occupied k \<in> set (hash_map t) \<Longrightarrow> Delete k \<notin> set ops \<Longrightarrow>
   run t ops = Some (Inr t') \<Longrightarrow> Occupied k \<in> set (hash_map t')"
proof (induction ops arbitrary: t)
  case Nil
  then show ?case by simp
next
  case (Cons op ops)
  from run_Cons [OF Cons.prems(3)] obtain t1 where
    s: "step t op = Some (Inr t1)" and r: "run t1 ops = Some (Inr t')" by blast
  from Cons.prems(2) have "op \<noteq> Delete k" "Delete k \<notin> set ops" by auto
  with step_keeps_key [OF Cons.prems(1) _ s] Cons.IH r show ?case by blast
qed

lemma search_map_finds:
  assumes inv: "table_inv t" and k: "Occupied k \<in> set (hash_map t)"
  shows "search_map t k = Some (Inr 1)"
proof -
  from k obtain j where j: "0 \<le> j" "j < current_size t" "slot_at t j = Occupied k"
    by (auto simp: stored_iff_slot)
  from inv have "chain_inv t" by (simp add: table_inv_def)
  from chain_invD [OF this j] obtain h d where
    h: "hash_function t k = Inr h" "0 \<le> h" "h < current_size t"
    and d: "probe t h d = j" "\<forall>k<d. slot_at t (probe t h k) \<noteq> Empty" by blast
  from d(1) j(3) have "strcmp_eq (slot_at t (probe t h d)) k" by simp
  from index_of_loop_found [OF h(2,3) this d(2)] obtain r where
    "index_of_loop t k h = Some (Inr r)" "0 \<le> r" by blast
  with h(1) show ?thesis by (simp add: search_map_def index_of_def)
qed

lemma add_to_map_present:
  assumes inv: "table_inv t" and k: "Occupied k \<in> set (hash_map t)"
    and load: "\<not> load_factor_exceeded (number_of_items t) (current_size t)"
  shows "add_to_map t k = Some (Inr t)"
proof -
  from k obtain j where j: "0 \<le> j" "j < current_size t" "slot_at t j = Occupied k"
    by (auto simp: stored_iff_slot)
  from inv have "chain_inv t" by (simp add: table_inv_def)
  from chain_invD [OF this j] obtain h d where
    h: "hash_function t k = Inr h" "0 \<le> h" "h < current_size t"
    and d: "probe t h d = j" "\<forall>k<d. slot_at t (probe t h k) \<noteq> Empty" by blast
  from d(1) j(3) have "strcmp_eq (slot_at t (probe t h d)) k" by simp
  from add_loop_dup [OF h(2,3) this d(2)] h(1)
  have "add_to_map_without_resizing t k = Some (Inr t)"
    by (simp add: add_to_map_without_resizing_def)
  moreover from j have "current_size t \<noteq> 0" by auto
  ultimately show ?thesis using load by (simp add: add_to_map_def grow_if_needed_def)
qed

lemma run_snoc:
  "run t (ops @ [op]) = Some (Inr t') \<Longrightarrow>
   \<exists>t1. run t ops = Some (Inr t1) \<and> step t1 op = Some (Inr t')"
proof (induction ops arbitrary: t)
  case Nil
  then show ?case by (auto split: option.splits sum.splits)
next
  case (Cons a ops)
  from run_Cons [of t a "ops @ [op]" t'] Cons.prems obtain t0 where
    s: "step t a = Some (Inr t0)" and r: "run t0 (ops @ [op]) = Some (Inr t')" by auto
  from Cons.IH [OF r] obtain t1 where "run t0 ops = Some (Inr t1)" "step t1 op = Some (Inr t')"
    by blast
  with s show ?case by auto
qed

text \<open>
  Find after insert, for a key that the insertion left in a cell: after any sequence of
  calls that returns from the uninitialised table, a returning \<^verbatim>\<open>add_to_map\<close> with the
  key in a cell, and any further returning sequence of calls without a deletion of that
  key, \<^verbatim>\<open>search_map\<close> returns 1. By \<open>add_to_map_stores\<close> the key is in a cell
  after every returning insertion unless it is the text of the marker.
\<close>

lemma stored_key_is_found:
  assumes "run uninitialised before = Some (Inr t0)"
    and "add_to_map t0 key = Some (Inr t1)"
    and "Occupied key \<in> set (hash_map t1)"
    and "run t1 later = Some (Inr t2)"
    and "Delete key \<notin> set later"
  shows "search_map t2 key = Some (Inr 1)"
proof -
  have "table_inv t0" using run_table_inv [OF uninitialised_table_inv assms(1)] .
  then have "table_inv t1" using assms(2) by (rule add_to_map_table_inv)
  then have "table_inv t2" using assms(4) by (rule run_table_inv)
  moreover have "Occupied key \<in> set (hash_map t2)"
    using run_keeps_key [OF assms(3,5,4)] .
  ultimately show ?thesis by (rule search_map_finds)
qed

section \<open>Walks that never end\<close>

lemma add_loop_diverges:
  assumes full: "\<forall>s\<in>set (hash_map t). s \<noteq> Empty \<and> \<not> strcmp_eq s name"
    and i: "0 \<le> i" "i < current_size t"
  shows "add_loop t name i fti = None"
proof (rule ccontr)
  assume "add_loop t name i fti \<noteq> None"
  then obtain y where y: "add_loop t name i fti = Some y" by auto
  have "(\<forall>s\<in>set (hash_map t). s \<noteq> Empty \<and> \<not> strcmp_eq s name) \<longrightarrow>
        0 \<le> i \<and> i < current_size t \<longrightarrow> False"
  proof (rule add_loop.raw_induct
    [where P = "\<lambda>t name i fti y.
        (\<forall>s\<in>set (hash_map t). s \<noteq> Empty \<and> \<not> strcmp_eq s name) \<longrightarrow>
        0 \<le> i \<and> i < current_size t \<longrightarrow> False", OF _ y])
    fix f t name index fti y
    assume IH: "\<And>t name index fti y. f t name index fti = Some y \<Longrightarrow>
       (\<forall>s\<in>set (hash_map t). s \<noteq> Empty \<and> \<not> strcmp_eq s name) \<longrightarrow>
        0 \<le> index \<and> index < current_size t \<longrightarrow> False"
    and body: "(case read_slot t index of
        Inl e \<Rightarrow> Some (Inl e)
      | Inr Empty \<Rightarrow>
          Some (store_name t name (if fti = - 1 then index else fti))
      | Inr s \<Rightarrow>
          if strcmp_eq s name then Some (Inr t)
          else f t name (next_index t index)
                 (if fti = - 1 \<and> s = Tombstone then index else fti)) = Some y"
    show "(\<forall>s\<in>set (hash_map t). s \<noteq> Empty \<and> \<not> strcmp_eq s name) \<longrightarrow>
        0 \<le> index \<and> index < current_size t \<longrightarrow> False"
    proof (intro impI)
      assume full: "\<forall>s\<in>set (hash_map t). s \<noteq> Empty \<and> \<not> strcmp_eq s name"
        and r: "0 \<le> index \<and> index < current_size t"
      then have here: "slot_at t index \<noteq> Empty" "\<not> strcmp_eq (slot_at t index) name"
        using slot_at_in_set by blast+
      from r have "read_slot t index = Inr (slot_at t index)"
        by (simp add: read_slot_in_range)
      with body here have "f t name (next_index t index)
          (if fti = - 1 \<and> slot_at t index = Tombstone then index else fti) = Some y"
        by (cases "slot_at t index") auto
      from IH [OF this] full next_index_range [of index t] r show False by blast
    qed
  qed
  with full i show False by blast
qed

lemma search_map_diverges:
  assumes "\<forall>s\<in>set (hash_map t). s \<noteq> Empty \<and> \<not> strcmp_eq s name"
    and "hash_function t name = Inr h" "0 \<le> h" "h < current_size t"
  shows "search_map t name = None"
  using index_of_loop_diverges [OF assms(1,3,4)] assms(2)
  by (simp add: search_map_def index_of_def)

lemma add_to_map_diverges:
  assumes "\<forall>s\<in>set (hash_map t). s \<noteq> Empty \<and> \<not> strcmp_eq s name"
    and "hash_function t name = Inr h" "0 \<le> h" "h < current_size t"
  shows "add_to_map t name = None"
  using add_loop_diverges [OF assms(1,3,4)] assms(2,4,3)
  by (simp add: add_to_map_def add_to_map_without_resizing_def)

section \<open>The hash\<close>

lemma hash_sum_acc:
  "hash_sum key s = s + word_of_int (sum_list (map ascii_value key))"
  by (induction key arbitrary: s) (simp_all add: algebra_simps)

lemma of_char_bounds: "0 \<le> (of_char c :: int) \<and> (of_char c :: int) < 256"
proof -
  have "(of_char c :: nat) mod 256 < 256" by simp
  then have "(of_char c :: nat) < 256" by (simp only: of_char_mod_256)
  then have "0 \<le> int (of_char c) \<and> int (of_char c) < 256" by simp
  then show ?thesis by (simp only: of_nat_of_char)
qed

lemma ascii_value_bounds: "- 128 \<le> ascii_value c \<and> ascii_value c \<le> 127"
  using of_char_bounds [of c] by (simp add: ascii_value_def)

lemma sum_values_bounds:
  "- 128 * int (length key) \<le> sum_list (map ascii_value key)
   \<and> sum_list (map ascii_value key) \<le> 127 * int (length key)"
proof (induction key)
  case Nil
  then show ?case by simp
next
  case (Cons c key)
  with ascii_value_bounds [of c] show ?case by (simp add: algebra_simps)
qed

lemma hash_sum_no_wrap:
  assumes "- 2147483648 \<le> sum_list (map ascii_value key)"
    and "sum_list (map ascii_value key) < 2147483648"
  shows "sint (hash_sum key 0) = sum_list (map ascii_value key)"
proof -
  let ?n = "sum_list (map ascii_value key)"
  have "hash_sum key 0 = (word_of_int ?n :: 32 word)" by (simp add: hash_sum_acc)
  moreover have "sint (word_of_int ?n :: 32 word) = ?n"
    using assms by (simp add: signed_of_int signed_take_bit_int_eq_self)
  ultimately show ?thesis by simp
qed

lemma hash_function_in_range:
  assumes "0 < current_size t" "0 \<le> sint (hash_sum key 0)"
  shows "\<exists>h. hash_function t key = Inr h \<and> 0 \<le> h \<and> h < current_size t
           \<and> h = sint (hash_sum key 0) mod current_size t"
  using assms
  by (simp add: hash_function_def signed_modulo_int_def sgn_if)

lemma index_of_loop_in_bounds:
  assumes "index_of_loop t name i = Some y" "0 \<le> i" "i < current_size t"
  shows "y \<noteq> Inl e"
proof -
  have "0 \<le> i \<and> i < current_size t \<longrightarrow> y \<noteq> Inl e"
  proof (rule index_of_loop.raw_induct
      [where P = "\<lambda>t name i y. 0 \<le> i \<and> i < current_size t \<longrightarrow> y \<noteq> Inl e", OF _ assms(1)])
    fix f t name index y
    assume IH: "\<And>t name index y. f t name index = Some y \<Longrightarrow>
        0 \<le> index \<and> index < current_size t \<longrightarrow> y \<noteq> Inl e"
      and body: "(case read_slot t index of
        Inl e \<Rightarrow> Some (Inl e)
      | Inr Empty \<Rightarrow> Some (Inr (- 1))
      | Inr s \<Rightarrow>
          if strcmp_eq s name then Some (Inr index)
          else f t name (next_index t index)) = Some y"
    show "0 \<le> index \<and> index < current_size t \<longrightarrow> y \<noteq> Inl e"
    proof
      assume r: "0 \<le> index \<and> index < current_size t"
      then have rd: "read_slot t index = Inr (slot_at t index)"
        by (simp add: read_slot_in_range)
      show "y \<noteq> Inl e"
      proof (cases "slot_at t index = Empty \<or> strcmp_eq (slot_at t index) name")
        case True
        with body rd show ?thesis by (cases "slot_at t index") auto
      next
        case False
        with body rd have "f t name (next_index t index) = Some y"
          by (cases "slot_at t index") auto
        from IH [OF this] next_index_range [of index t] r show ?thesis by blast
      qed
    qed
  qed
  with assms(2,3) show ?thesis by simp
qed

text \<open>
  As long as the sum is not negative, by a wrap or by bytes from \<open>0x80\<close> on, the hash
  is an index of the array, and a walk that starts inside the array stays inside it.
\<close>

lemma hash_function_short_key:
  assumes "0 < current_size t" "int (length key) < 16777216"
    and "0 \<le> sum_list (map ascii_value key)"
  shows "\<exists>h. hash_function t key = Inr h \<and> 0 \<le> h \<and> h < current_size t
           \<and> h = sum_list (map ascii_value key) mod current_size t"
proof -
  from sum_values_bounds [of key] assms(2)
  have "- 2147483648 \<le> sum_list (map ascii_value key)"
    "sum_list (map ascii_value key) < 2147483648" by simp_all
  from hash_sum_no_wrap [OF this] hash_function_in_range [OF assms(1), of key] assms(3)
  show ?thesis by simp
qed

lemma search_map_in_bounds:
  assumes "0 < current_size t" "0 \<le> sint (hash_sum name 0)"
  shows "search_map t name \<noteq> Some (Inl e)"
proof -
  from hash_function_in_range [OF assms] obtain h where
    h: "hash_function t name = Inr h" "0 \<le> h" "h < current_size t" by blast
  show ?thesis
  proof (cases "index_of_loop t name h")
    case None
    with h show ?thesis by (simp add: search_map_def index_of_def)
  next
    case (Some y)
    from index_of_loop_in_bounds [OF Some h(2,3)] Some h(1) show ?thesis
      by (cases y) (simp_all add: search_map_def index_of_def)
  qed
qed

lemma hash_sum_replicate:
  "hash_sum (replicate n c) s = s + of_nat n * word_of_int (ascii_value c)"
  by (induction n arbitrary: s) (simp_all add: algebra_simps)

section \<open>Concrete runs\<close>

lemma run_delete_marker_text:
  "run uninitialised [Insert ''a'', Delete ''a'', Delete ''tombstone''] =
     Some (Inr \<lparr>hash_map = [Empty, Empty, Empty, Empty, Empty, Empty, Empty, Tombstone,
                             Empty, Empty],
                 number_of_items = - 1\<rparr>)"
  by code_simp

lemma occupied_count_after_delete_marker_text:
  "occupied_count \<lparr>hash_map = [Empty, Empty, Empty, Empty, Empty, Empty, Empty, Tombstone,
                             Empty, Empty],
                 number_of_items = - 1\<rparr> = 0"
  by (simp add: occupied_count_def)

lemma run_insert_delete: "run uninitialised [Insert ''a'', Delete ''a''] =
     Some (Inr \<lparr>hash_map = [Empty, Empty, Empty, Empty, Empty, Empty, Empty, Tombstone,
                             Empty, Empty],
                 number_of_items = 0\<rparr>)"
  by code_simp

lemma search_marker_text:
  "search_map \<lparr>hash_map = [Empty, Empty, Empty, Empty, Empty, Empty, Empty, Tombstone,
                             Empty, Empty],
                 number_of_items = 0\<rparr> ''tombstone'' = Some (Inr 1)"
  by code_simp

lemma run_fill_with_tombstones: "run uninitialised
       [Insert ''d'', Insert ''e'', Insert ''f'', Insert ''g'', Insert ''h'', Insert ''i'',
        Insert ''j'', Delete ''d'', Delete ''e'', Delete ''f'', Delete ''g'', Delete ''h'',
        Delete ''i'', Delete ''j'', Insert ''a'', Insert ''b'', Insert ''c''] =
     Some (Inr \<lparr>hash_map = [Tombstone, Tombstone, Tombstone, Tombstone, Tombstone, Tombstone,
                             Tombstone, Occupied ''a'', Occupied ''b'', Occupied ''c''],
                 number_of_items = 3\<rparr>)"
  by code_simp

lemma hash_k_full_table:
  "hash_function \<lparr>hash_map = [Tombstone, Tombstone, Tombstone, Tombstone, Tombstone, Tombstone,
                             Tombstone, Occupied ''a'', Occupied ''b'', Occupied ''c''],
                 number_of_items = 3\<rparr> ''k'' = Inr 7"
  by code_simp

lemma search_full_table:
  "search_map \<lparr>hash_map = [Tombstone, Tombstone, Tombstone, Tombstone, Tombstone, Tombstone,
                             Tombstone, Occupied ''a'', Occupied ''b'', Occupied ''c''],
                 number_of_items = 3\<rparr> ''k'' = None"
  by (rule search_map_diverges [OF _ hash_k_full_table]) (simp_all add: tombstone_def current_size_def)

lemma add_full_table:
  "add_to_map \<lparr>hash_map = [Tombstone, Tombstone, Tombstone, Tombstone, Tombstone, Tombstone,
                             Tombstone, Occupied ''a'', Occupied ''b'', Occupied ''c''],
                 number_of_items = 3\<rparr> ''k'' = None"
  by (rule add_to_map_diverges [OF _ hash_k_full_table]) (simp_all add: tombstone_def current_size_def)

lemma hash_long_key:
  "hash_function \<lparr>hash_map = replicate 10 Empty, number_of_items = 0\<rparr>
     (replicate 17602326 CHR ''z'') = Inr (- 4)"
  by (simp add: hash_function_def current_size_def hash_sum_replicate ascii_value_def
      signed_modulo_int_def)

lemma index_of_out_of_range:
  "hash_function t name = Inr h \<Longrightarrow> \<not> (0 \<le> h \<and> h < current_size t) \<Longrightarrow>
   index_of t name = Some (Inl OutOfBounds)"
  by (subst index_of_def, simp, subst index_of_loop.simps) (auto simp: read_slot_def)

lemma search_long_key:
  "search_map \<lparr>hash_map = replicate 10 Empty, number_of_items = 0\<rparr>
     (replicate 17602326 CHR ''z'') = Some (Inl OutOfBounds)"
  using index_of_out_of_range [OF hash_long_key] by (simp add: search_map_def)

lemma remove_long_key:
  "remove_from_map \<lparr>hash_map = replicate 10 Empty, number_of_items = 0\<rparr>
     (replicate 17602326 CHR ''z'') = Some (Inl OutOfBounds)"
  using index_of_out_of_range [OF hash_long_key] by (simp add: remove_from_map_def)

lemma search_uninitialised: "search_map uninitialised name = Some (Inl DivisionByZero)"
  by (simp add: search_map_def index_of_def hash_function_def current_size_def uninitialised_def)

lemma remove_uninitialised:
  "remove_from_map uninitialised name = Some (Inl DivisionByZero)"
  by (simp add: remove_from_map_def index_of_def hash_function_def current_size_def uninitialised_def)

lemma run_resize_10:
  "run uninitialised [Resize 10] = Some (Inr \<lparr>hash_map = replicate 10 Empty, number_of_items = 0\<rparr>)"
  by code_simp

lemma add_marker_text:
  "add_to_map
      \<lparr>hash_map = [Empty, Empty, Empty, Empty, Empty, Empty, Empty, Tombstone,
                   Empty, Empty],
       number_of_items = 0\<rparr> ''tombstone'' = Some (Inr
      \<lparr>hash_map = [Empty, Empty, Empty, Empty, Empty, Empty, Empty, Tombstone,
                   Empty, Empty],
       number_of_items = 0\<rparr>)"
  by code_simp

lemma resize_drops_marker:
  "resize_map
      \<lparr>hash_map = [Empty, Empty, Empty, Empty, Empty, Empty, Empty, Tombstone,
                   Empty, Empty],
       number_of_items = 0\<rparr> 20 = Some (Inr
      \<lparr>hash_map = replicate 20 Empty, number_of_items = 0\<rparr>)"
  by code_simp

lemma search_after_resize:
  "search_map \<lparr>hash_map = replicate 20 Empty, number_of_items = 0\<rparr> ''tombstone'' =
     Some (Inr 0)"
  by code_simp

text \<open>A byte from \<open>0x80\<close> on gives a negative index without any overflow.\<close>

lemma hash_high_byte:
  "hash_function \<lparr>hash_map = replicate 10 Empty, number_of_items = 0\<rparr> [CHR 0xE9] =
     Inr (- 3)"
  by code_simp

subsection \<open>The scenario of the specification, call by call\<close>

lemma scenario_step_0:
  "resize_map uninitialised 6 = Some (Inr
      \<lparr>hash_map = [Empty, Empty, Empty, Empty, Empty, Empty],
       number_of_items = 0\<rparr>)"
  by code_simp

lemma scenario_step_1:
  "add_to_map
      \<lparr>hash_map = [Empty, Empty, Empty, Empty, Empty, Empty],
       number_of_items = 0\<rparr> ''Alpha'' = Some (Inr
      \<lparr>hash_map = [Occupied ''Alpha'', Empty, Empty, Empty, Empty, Empty],
       number_of_items = 1\<rparr>)"
  by code_simp

lemma scenario_step_2:
  "add_to_map
      \<lparr>hash_map = [Occupied ''Alpha'', Empty, Empty, Empty, Empty, Empty],
       number_of_items = 1\<rparr> ''Bravo'' = Some (Inr
      \<lparr>hash_map = [Occupied ''Alpha'', Empty, Occupied ''Bravo'', Empty, Empty, Empty],
       number_of_items = 2\<rparr>)"
  by code_simp

lemma scenario_step_3:
  "add_to_map
      \<lparr>hash_map = [Occupied ''Alpha'', Empty, Occupied ''Bravo'', Empty, Empty, Empty],
       number_of_items = 2\<rparr> ''Alpha'' = Some (Inr
      \<lparr>hash_map = [Occupied ''Alpha'', Empty, Occupied ''Bravo'', Empty, Empty, Empty],
       number_of_items = 2\<rparr>)"
  by code_simp

lemma scenario_step_4:
  "add_to_map
      \<lparr>hash_map = [Occupied ''Alpha'', Empty, Occupied ''Bravo'', Empty, Empty, Empty],
       number_of_items = 2\<rparr> ''Charlie'' = Some (Inr
      \<lparr>hash_map = [Occupied ''Alpha'', Occupied ''Charlie'', Occupied ''Bravo'', Empty,
                   Empty, Empty],
       number_of_items = 3\<rparr>)"
  by code_simp

lemma scenario_step_5:
  "add_to_map
      \<lparr>hash_map = [Occupied ''Alpha'', Occupied ''Charlie'', Occupied ''Bravo'', Empty,
                   Empty, Empty],
       number_of_items = 3\<rparr> ''Delta'' = Some (Inr
      \<lparr>hash_map = [Occupied ''Alpha'', Occupied ''Charlie'', Occupied ''Bravo'', Empty,
                   Occupied ''Delta'', Empty],
       number_of_items = 4\<rparr>)"
  by code_simp

lemma scenario_step_6:
  "add_to_map
      \<lparr>hash_map = [Occupied ''Alpha'', Occupied ''Charlie'', Occupied ''Bravo'', Empty,
                   Occupied ''Delta'', Empty],
       number_of_items = 4\<rparr> ''Echo'' = Some (Inr
      \<lparr>hash_map = [Occupied ''Charlie'', Empty, Occupied ''Bravo'', Empty, Empty,
                   Empty, Occupied ''Alpha'', Empty, Empty, Empty, Occupied ''Delta'',
                   Occupied ''Echo''],
       number_of_items = 5\<rparr>)"
  by code_simp

lemma scenario_step_7:
  "search_map
      \<lparr>hash_map = [Occupied ''Charlie'', Empty, Occupied ''Bravo'', Empty, Empty,
                   Empty, Occupied ''Alpha'', Empty, Empty, Empty, Occupied ''Delta'',
                   Occupied ''Echo''],
       number_of_items = 5\<rparr> ''Alpha'' = Some (Inr 1)"
  by code_simp

lemma scenario_step_8:
  "remove_from_map
      \<lparr>hash_map = [Occupied ''Charlie'', Empty, Occupied ''Bravo'', Empty, Empty,
                   Empty, Occupied ''Alpha'', Empty, Empty, Empty, Occupied ''Delta'',
                   Occupied ''Echo''],
       number_of_items = 5\<rparr> ''Charlie'' = Some (Inr (1,
      \<lparr>hash_map = [Tombstone, Empty, Occupied ''Bravo'', Empty, Empty, Empty,
                   Occupied ''Alpha'', Empty, Empty, Empty, Occupied ''Delta'',
                   Occupied ''Echo''],
       number_of_items = 4\<rparr>))"
  by code_simp

lemma scenario_step_9:
  "search_map
      \<lparr>hash_map = [Tombstone, Empty, Occupied ''Bravo'', Empty, Empty, Empty,
                   Occupied ''Alpha'', Empty, Empty, Empty, Occupied ''Delta'',
                   Occupied ''Echo''],
       number_of_items = 4\<rparr> ''Echo'' = Some (Inr 1)"
  by code_simp

lemma scenario_step_10:
  "add_to_map
      \<lparr>hash_map = [Tombstone, Empty, Occupied ''Bravo'', Empty, Empty, Empty,
                   Occupied ''Alpha'', Empty, Empty, Empty, Occupied ''Delta'',
                   Occupied ''Echo''],
       number_of_items = 4\<rparr> ''Charlie'' = Some (Inr
      \<lparr>hash_map = [Occupied ''Charlie'', Empty, Occupied ''Bravo'', Empty, Empty,
                   Empty, Occupied ''Alpha'', Empty, Empty, Empty, Occupied ''Delta'',
                   Occupied ''Echo''],
       number_of_items = 5\<rparr>)"
  by code_simp

section \<open>Claims\<close>

text \<open>
  C1. A key whose insertion returned is not always found later. After "a" is added and
  removed, cell 7 holds the marker. \<^verbatim>\<open>add_to_map("tombstone")\<close> meets the marker on its
  walk, takes its text for the key and returns without storing anything;
  \<^verbatim>\<open>resize_map(20)\<close> then drops the marker, and \<^verbatim>\<open>search_map("tombstone")\<close> returns 0
  although the key was inserted and never deleted. (For a key that the insertion left
  in a cell, \<open>stored_key_is_found\<close> shows that every later search returns 1 until
  the key is deleted.)
\<close>

theorem insert_of_marker_text_is_lost:
  "run uninitialised [Insert ''a'', Delete ''a''] = Some (Inr
      \<lparr>hash_map = [Empty, Empty, Empty, Empty, Empty, Empty, Empty, Tombstone,
                   Empty, Empty],
       number_of_items = 0\<rparr>)
   \<and> add_to_map
      \<lparr>hash_map = [Empty, Empty, Empty, Empty, Empty, Empty, Empty, Tombstone,
                   Empty, Empty],
       number_of_items = 0\<rparr> ''tombstone'' = Some (Inr
      \<lparr>hash_map = [Empty, Empty, Empty, Empty, Empty, Empty, Empty, Tombstone,
                   Empty, Empty],
       number_of_items = 0\<rparr>)
   \<and> resize_map
      \<lparr>hash_map = [Empty, Empty, Empty, Empty, Empty, Empty, Empty, Tombstone,
                   Empty, Empty],
       number_of_items = 0\<rparr> 20 = Some (Inr
      \<lparr>hash_map = replicate 20 Empty, number_of_items = 0\<rparr>)
   \<and> search_map \<lparr>hash_map = replicate 20 Empty, number_of_items = 0\<rparr> ''tombstone'' =
     Some (Inr 0)"
  by (intro conjI run_insert_delete add_marker_text resize_drops_marker search_after_resize)

text \<open>
  C2. The count does not always equal the number of cells that hold a key. After
  "a" is added and removed, cell 7 holds the marker and the count is 0. Removing the
  key "tombstone" finds the marker by its text, overwrites it with itself and decrements
  the count: the count is \<open>-1\<close> with no key stored.
\<close>

theorem count_differs_from_occupied_cells:
  "run uninitialised [Insert ''a'', Delete ''a'', Delete ''tombstone''] =
     Some (Inr 
      \<lparr>hash_map = [Empty, Empty, Empty, Empty, Empty, Empty, Empty, Tombstone,
       Empty, Empty],
       number_of_items = - 1\<rparr>)
   \<and> occupied_count 
      \<lparr>hash_map = [Empty, Empty, Empty, Empty, Empty, Empty, Empty, Tombstone,
       Empty, Empty],
       number_of_items = - 1\<rparr> = 0"
  by (intro conjI run_delete_marker_text occupied_count_after_delete_marker_text)

text \<open>
  C3. A search does take the marker for a match. After "a" is added and removed no
  cell holds a key, and the search for the key "tombstone" returns 1.
\<close>

theorem search_matches_the_marker:
  "run uninitialised [Insert ''a'', Delete ''a''] =
     Some (Inr 
      \<lparr>hash_map = [Empty, Empty, Empty, Empty, Empty, Empty, Empty, Tombstone,
       Empty, Empty],
       number_of_items = 0\<rparr>)
   \<and> search_map 
      \<lparr>hash_map = [Empty, Empty, Empty, Empty, Empty, Empty, Empty, Tombstone,
       Empty, Empty],
       number_of_items = 0\<rparr> ''tombstone'' = Some (Inr 1)"
  by (intro conjI run_insert_delete search_marker_text)

text \<open>
  C4. Load factor ceiling. In any table reached from the uninitialised one by a
  sequence of calls (the empty sequence included), a call of \<^verbatim>\<open>add_to_map\<close> that
  returns, for a new key or for one already stored, leaves a table of at least one cell
  with \<open>count / capacity \<le> 0.7\<close>, that is \<open>10 * count \<le> 7 * capacity\<close>. (Doubling a
  capacity beyond \<^verbatim>\<open>INT_MAX\<close> is undefined behaviour, not a return.)
\<close>

theorem load_factor_ceiling_after_insert:
  assumes "run uninitialised ops = Some (Inr t)"
    and "add_to_map t key = Some (Inr t')"
  shows "0 < current_size t' \<and> 10 * number_of_items t' \<le> 7 * current_size t'"
proof -
  have "table_inv t" using run_table_inv [OF uninitialised_table_inv assms(1)] .
  then show ?thesis using assms(2) by (rule add_to_map_ceiling)
qed

theorem load_factor_ceiling_after_insert_witness:
  "run uninitialised
      [Resize 6, Insert ''Alpha'', Insert ''Bravo'', Insert ''Charlie'', Insert ''Delta''] =
     Some (Inr
      \<lparr>hash_map = [Occupied ''Alpha'', Occupied ''Charlie'', Occupied ''Bravo'', Empty,
                   Occupied ''Delta'', Empty],
       number_of_items = 4\<rparr>)
   \<and> add_to_map
      \<lparr>hash_map = [Occupied ''Alpha'', Occupied ''Charlie'', Occupied ''Bravo'', Empty,
                   Occupied ''Delta'', Empty],
       number_of_items = 4\<rparr> ''Echo'' = Some (Inr
      \<lparr>hash_map = [Occupied ''Charlie'', Empty, Occupied ''Bravo'', Empty, Empty, Empty,
                   Occupied ''Alpha'', Empty, Empty, Empty, Occupied ''Delta'',
                   Occupied ''Echo''],
       number_of_items = 5\<rparr>)
   \<and> 0 < current_size
      \<lparr>hash_map = [Occupied ''Charlie'', Empty, Occupied ''Bravo'', Empty, Empty, Empty,
                   Occupied ''Alpha'', Empty, Empty, Empty, Occupied ''Delta'',
                   Occupied ''Echo''],
       number_of_items = 5\<rparr>
   \<and> 10 * number_of_items
      \<lparr>hash_map = [Occupied ''Charlie'', Empty, Occupied ''Bravo'', Empty, Empty, Empty,
                   Occupied ''Alpha'', Empty, Empty, Empty, Occupied ''Delta'',
                   Occupied ''Echo''],
       number_of_items = 5\<rparr>
     \<le> 7 * current_size
      \<lparr>hash_map = [Occupied ''Charlie'', Empty, Occupied ''Bravo'', Empty, Empty, Empty,
                   Occupied ''Alpha'', Empty, Empty, Empty, Occupied ''Delta'',
                   Occupied ''Echo''],
       number_of_items = 5\<rparr>"
proof -
  have h1: "run uninitialised
      [Resize 6, Insert ''Alpha'', Insert ''Bravo'', Insert ''Charlie'', Insert ''Delta''] =
     Some (Inr
      \<lparr>hash_map = [Occupied ''Alpha'', Occupied ''Charlie'', Occupied ''Bravo'', Empty,
                   Occupied ''Delta'', Empty],
       number_of_items = 4\<rparr>)"
    by code_simp
  have h2: "add_to_map
      \<lparr>hash_map = [Occupied ''Alpha'', Occupied ''Charlie'', Occupied ''Bravo'', Empty,
                   Occupied ''Delta'', Empty],
       number_of_items = 4\<rparr> ''Echo'' = Some (Inr
      \<lparr>hash_map = [Occupied ''Charlie'', Empty, Occupied ''Bravo'', Empty, Empty, Empty,
                   Occupied ''Alpha'', Empty, Empty, Empty, Occupied ''Delta'',
                   Occupied ''Echo''],
       number_of_items = 5\<rparr>)"
    by (rule scenario_step_6)
  from load_factor_ceiling_after_insert [OF h1 h2] h1 h2 show ?thesis by blast
qed

text \<open>
  C5. Uniqueness. After any sequence of insertions that returns from the uninitialised
  table, no two cells hold the same key (strings compared character by character), and
  inserting a key that is in a cell returns the very same table: same cells, same
  capacity, same count.
\<close>

theorem keys_unique_and_reinsert_is_noop:
  assumes "run uninitialised (map Insert keys) = Some (Inr t)"
  shows "unique_keys t
         \<and> (\<forall>key. Occupied key \<in> set (hash_map t) \<longrightarrow> add_to_map t key = Some (Inr t))"
proof -
  have inv: "table_inv t" using run_table_inv [OF uninitialised_table_inv assms] .
  have "add_to_map t key = Some (Inr t)" if k: "Occupied key \<in> set (hash_map t)" for key
  proof (cases keys rule: rev_cases)
    case Nil
    with assms k show ?thesis by (auto simp: uninitialised_def)
  next
    case (snoc ks last_key)
    with assms have "run uninitialised (map Insert ks @ [Insert last_key]) = Some (Inr t)"
      by simp
    from run_snoc [OF this] obtain t1 where
      r: "run uninitialised (map Insert ks) = Some (Inr t1)"
      and a: "add_to_map t1 last_key = Some (Inr t)" by auto
    have "table_inv t1" using run_table_inv [OF uninitialised_table_inv r] .
    from add_to_map_ceiling [OF this a]
    have "\<not> load_factor_exceeded (number_of_items t) (current_size t)"
      by (simp add: load_factor_exceeded_def)
    with inv k show ?thesis by (rule add_to_map_present)
  qed
  with inv show ?thesis by (simp add: table_inv_def)
qed

theorem keys_unique_and_reinsert_is_noop_witness:
  "run uninitialised (map Insert [''Alpha'', ''Bravo'']) = Some (Inr
      \<lparr>hash_map = [Empty, Empty, Empty, Empty, Empty, Empty, Occupied ''Alpha'',
                   Occupied ''Bravo'', Empty, Empty],
       number_of_items = 2\<rparr>)
   \<and> unique_keys
      \<lparr>hash_map = [Empty, Empty, Empty, Empty, Empty, Empty, Occupied ''Alpha'',
                   Occupied ''Bravo'', Empty, Empty],
       number_of_items = 2\<rparr>
   \<and> Occupied ''Alpha'' \<in> set (hash_map
      \<lparr>hash_map = [Empty, Empty, Empty, Empty, Empty, Empty, Occupied ''Alpha'',
                   Occupied ''Bravo'', Empty, Empty],
       number_of_items = 2\<rparr>)
   \<and> add_to_map
      \<lparr>hash_map = [Empty, Empty, Empty, Empty, Empty, Empty, Occupied ''Alpha'',
                   Occupied ''Bravo'', Empty, Empty],
       number_of_items = 2\<rparr> ''Alpha'' = Some (Inr
      \<lparr>hash_map = [Empty, Empty, Empty, Empty, Empty, Empty, Occupied ''Alpha'',
                   Occupied ''Bravo'', Empty, Empty],
       number_of_items = 2\<rparr>)"
proof -
  have h1: "run uninitialised (map Insert [''Alpha'', ''Bravo'']) = Some (Inr
      \<lparr>hash_map = [Empty, Empty, Empty, Empty, Empty, Empty, Occupied ''Alpha'',
                   Occupied ''Bravo'', Empty, Empty],
       number_of_items = 2\<rparr>)"
    by code_simp
  have h2: "Occupied ''Alpha'' \<in> set (hash_map
      \<lparr>hash_map = [Empty, Empty, Empty, Empty, Empty, Empty, Occupied ''Alpha'',
                   Occupied ''Bravo'', Empty, Empty],
       number_of_items = 2\<rparr>)"
    by simp
  from keys_unique_and_reinsert_is_noop [OF h1] h1 h2 show ?thesis by blast
qed

text \<open>
  C6. The scenario of the specification, one call per line. \<^verbatim>\<open>resize_map(6)\<close> on the
  uninitialised table gives six empty cells and count 0. "Alpha" and "Bravo" are stored,
  the second "Alpha" changes nothing, "Charlie" and "Delta" are stored: count 4 in six
  cells. "Echo" makes the count 5 and the table is rebuilt with twelve cells. "Alpha" is
  found. Removing "Charlie" returns 1, leaves count 4 and the marker in cell 0, where
  "Charlie" was. "Echo" is found. Adding "Charlie" again stores it in cell 0, the cell of
  the marker, with count 5 in twelve cells.
\<close>

theorem concrete_scenario:
  "resize_map uninitialised 6 = Some (Inr
      \<lparr>hash_map = [Empty, Empty, Empty, Empty, Empty, Empty],
       number_of_items = 0\<rparr>)
   \<and> add_to_map
      \<lparr>hash_map = [Empty, Empty, Empty, Empty, Empty, Empty],
       number_of_items = 0\<rparr> ''Alpha'' = Some (Inr
      \<lparr>hash_map = [Occupied ''Alpha'', Empty, Empty, Empty, Empty, Empty],
       number_of_items = 1\<rparr>)
   \<and> add_to_map
      \<lparr>hash_map = [Occupied ''Alpha'', Empty, Empty, Empty, Empty, Empty],
       number_of_items = 1\<rparr> ''Bravo'' = Some (Inr
      \<lparr>hash_map = [Occupied ''Alpha'', Empty, Occupied ''Bravo'', Empty, Empty, Empty],
       number_of_items = 2\<rparr>)
   \<and> add_to_map
      \<lparr>hash_map = [Occupied ''Alpha'', Empty, Occupied ''Bravo'', Empty, Empty, Empty],
       number_of_items = 2\<rparr> ''Alpha'' = Some (Inr
      \<lparr>hash_map = [Occupied ''Alpha'', Empty, Occupied ''Bravo'', Empty, Empty, Empty],
       number_of_items = 2\<rparr>)
   \<and> add_to_map
      \<lparr>hash_map = [Occupied ''Alpha'', Empty, Occupied ''Bravo'', Empty, Empty, Empty],
       number_of_items = 2\<rparr> ''Charlie'' = Some (Inr
      \<lparr>hash_map = [Occupied ''Alpha'', Occupied ''Charlie'', Occupied ''Bravo'', Empty,
                   Empty, Empty],
       number_of_items = 3\<rparr>)
   \<and> add_to_map
      \<lparr>hash_map = [Occupied ''Alpha'', Occupied ''Charlie'', Occupied ''Bravo'', Empty,
                   Empty, Empty],
       number_of_items = 3\<rparr> ''Delta'' = Some (Inr
      \<lparr>hash_map = [Occupied ''Alpha'', Occupied ''Charlie'', Occupied ''Bravo'', Empty,
                   Occupied ''Delta'', Empty],
       number_of_items = 4\<rparr>)
   \<and> add_to_map
      \<lparr>hash_map = [Occupied ''Alpha'', Occupied ''Charlie'', Occupied ''Bravo'', Empty,
                   Occupied ''Delta'', Empty],
       number_of_items = 4\<rparr> ''Echo'' = Some (Inr
      \<lparr>hash_map = [Occupied ''Charlie'', Empty, Occupied ''Bravo'', Empty, Empty,
                   Empty, Occupied ''Alpha'', Empty, Empty, Empty, Occupied ''Delta'',
                   Occupied ''Echo''],
       number_of_items = 5\<rparr>)
   \<and> search_map
      \<lparr>hash_map = [Occupied ''Charlie'', Empty, Occupied ''Bravo'', Empty, Empty,
                   Empty, Occupied ''Alpha'', Empty, Empty, Empty, Occupied ''Delta'',
                   Occupied ''Echo''],
       number_of_items = 5\<rparr> ''Alpha'' = Some (Inr 1)
   \<and> remove_from_map
      \<lparr>hash_map = [Occupied ''Charlie'', Empty, Occupied ''Bravo'', Empty, Empty,
                   Empty, Occupied ''Alpha'', Empty, Empty, Empty, Occupied ''Delta'',
                   Occupied ''Echo''],
       number_of_items = 5\<rparr> ''Charlie'' = Some (Inr (1,
      \<lparr>hash_map = [Tombstone, Empty, Occupied ''Bravo'', Empty, Empty, Empty,
                   Occupied ''Alpha'', Empty, Empty, Empty, Occupied ''Delta'',
                   Occupied ''Echo''],
       number_of_items = 4\<rparr>))
   \<and> search_map
      \<lparr>hash_map = [Tombstone, Empty, Occupied ''Bravo'', Empty, Empty, Empty,
                   Occupied ''Alpha'', Empty, Empty, Empty, Occupied ''Delta'',
                   Occupied ''Echo''],
       number_of_items = 4\<rparr> ''Echo'' = Some (Inr 1)
   \<and> add_to_map
      \<lparr>hash_map = [Tombstone, Empty, Occupied ''Bravo'', Empty, Empty, Empty,
                   Occupied ''Alpha'', Empty, Empty, Empty, Occupied ''Delta'',
                   Occupied ''Echo''],
       number_of_items = 4\<rparr> ''Charlie'' = Some (Inr
      \<lparr>hash_map = [Occupied ''Charlie'', Empty, Occupied ''Bravo'', Empty, Empty,
                   Empty, Occupied ''Alpha'', Empty, Empty, Empty, Occupied ''Delta'',
                   Occupied ''Echo''],
       number_of_items = 5\<rparr>)"
  by (intro conjI scenario_step_0 scenario_step_1 scenario_step_2 scenario_step_3
      scenario_step_4 scenario_step_5 scenario_step_6 scenario_step_7 scenario_step_8
      scenario_step_9 scenario_step_10)

text \<open>
  C7. A call of \<^verbatim>\<open>resize_map\<close> with a new size below 1, or with a new size that the
  stored count would load beyond 0.7 (\<open>count / new_size > 0.7\<close>, that is
  \<open>10 * count > 7 * new_size\<close>), returns the table it was given: same cells, same
  capacity, same count.
\<close>

theorem resize_map_rejection_is_noop:
  assumes "new_size < 1 \<or> 10 * number_of_items t > 7 * new_size"
  shows "resize_map t new_size = Some (Inr t)"
  using assms by (auto simp: resize_map_def load_factor_exceeded_def)

theorem resize_map_rejection_is_noop_witness:
  "((7::int) < 1 \<or> 10 * number_of_items
        \<lparr>hash_map = [Empty, Empty, Occupied ''b'', Occupied ''c'', Occupied ''d'',
                      Occupied ''e'', Occupied ''f'', Empty], number_of_items = 5\<rparr> > 7 * 7)
   \<and> resize_map
        \<lparr>hash_map = [Empty, Empty, Occupied ''b'', Occupied ''c'', Occupied ''d'',
                      Occupied ''e'', Occupied ''f'', Empty], number_of_items = 5\<rparr> 7
     = Some (Inr
        \<lparr>hash_map = [Empty, Empty, Occupied ''b'', Occupied ''c'', Occupied ''d'',
                      Occupied ''e'', Occupied ''f'', Empty], number_of_items = 5\<rparr>)"
  using resize_map_rejection_is_noop
    [of 7 "\<lparr>hash_map = [Empty, Empty, Occupied ''b'', Occupied ''c'', Occupied ''d'',
                      Occupied ''e'', Occupied ''f'', Empty], number_of_items = 5\<rparr>"]
  by simp

text \<open>
  C8. Not every call runs to completion. Seven keys fill cells 0 to 6 of the default
  table of ten cells (load 0.7, no growth); removing them leaves seven markers and
  count 0; three more keys take the cells 7, 8 and 9. No cell is \<^verbatim>\<open>NULL\<close> any more, and
  both the search for a key that is not stored and its insertion walk round the array
  for ever.
\<close>

theorem full_table_walk_never_ends:
  "run uninitialised
       [Insert ''d'', Insert ''e'', Insert ''f'', Insert ''g'', Insert ''h'', Insert ''i'',
        Insert ''j'', Delete ''d'', Delete ''e'', Delete ''f'', Delete ''g'', Delete ''h'',
        Delete ''i'', Delete ''j'', Insert ''a'', Insert ''b'', Insert ''c''] =
     Some (Inr 
      \<lparr>hash_map = [Tombstone, Tombstone, Tombstone, Tombstone, Tombstone, Tombstone,
       Tombstone, Occupied ''a'', Occupied ''b'', Occupied ''c''],
       number_of_items = 3\<rparr>)
   \<and> search_map 
      \<lparr>hash_map = [Tombstone, Tombstone, Tombstone, Tombstone, Tombstone, Tombstone,
       Tombstone, Occupied ''a'', Occupied ''b'', Occupied ''c''],
       number_of_items = 3\<rparr> ''k'' = None
   \<and> add_to_map 
      \<lparr>hash_map = [Tombstone, Tombstone, Tombstone, Tombstone, Tombstone, Tombstone,
       Tombstone, Occupied ''a'', Occupied ''b'', Occupied ''c''],
       number_of_items = 3\<rparr> ''k'' = None"
  by (intro conjI run_fill_with_tombstones search_full_table add_full_table)

text \<open>
  C9. The hash is not always an index of the array. A key of 17602326 letters "z" has
  the character sum 2147483772, which wraps to \<open>-2147483524\<close>; the remainder of its
  division by 10 is \<open>-4\<close> in C.
\<close>

theorem hash_function_negative_after_wrap:
  "run uninitialised [Resize 10] =
     Some (Inr \<lparr>hash_map = replicate 10 Empty, number_of_items = 0\<rparr>)
   \<and> hash_function \<lparr>hash_map = replicate 10 Empty, number_of_items = 0\<rparr>
       (replicate 17602326 CHR ''z'') = Inr (- 4)"
  by (intro conjI run_resize_10 hash_long_key)

text \<open>
  C10. On the uninitialised table \<^verbatim>\<open>search_map\<close> and \<^verbatim>\<open>remove_from_map\<close> divide by
  zero. With ten cells the same two calls, given the long key of C9, read the array at
  index \<open>-4\<close>: a capacity of at least 1 does not keep the probed index inside the array.
\<close>

theorem search_and_remove_preconditions:
  "search_map uninitialised ''a'' = Some (Inl DivisionByZero)
   \<and> remove_from_map uninitialised ''a'' = Some (Inl DivisionByZero)
   \<and> search_map \<lparr>hash_map = replicate 10 Empty, number_of_items = 0\<rparr>
       (replicate 17602326 CHR ''z'') = Some (Inl OutOfBounds)
   \<and> remove_from_map \<lparr>hash_map = replicate 10 Empty, number_of_items = 0\<rparr>
       (replicate 17602326 CHR ''z'') = Some (Inl OutOfBounds)"
  by (intro conjI search_uninitialised remove_uninitialised search_long_key remove_long_key)

end
